theory Spec2Isabelle
  imports Complex_Main "HOL-Library.AList"
begin

section \<open>Scalars of a tensor\<close>

text \<open>
  The entries of a \<^verbatim>\<open>torch.float\<close> tensor are single-precision numbers (IEEE binary32):
  a real number that the format represents, or one of the three special values. Python
  floats are double-precision numbers (binary64), represented in the same type. Every
  arithmetic operation returns the exact result rounded to the format of the operation,
  to the nearest representable number and to the even one at a tie, with gradual
  underflow and with overflow to an infinity. The sign of zero is not modelled. The
  special values matter because the source reaches them without raising (a division
  by zero, the logarithm of zero), where the total functions of HOL would quietly
  return a number.
\<close>

datatype scalar = Fin real | PInf | NInf | NaN

datatype py_error = ValueError | PyException | KeyError | IndexError | RuntimeError

fun is_fin :: "scalar \<Rightarrow> bool" where
  "is_fin (Fin a) = True"
| "is_fin PInf = False"
| "is_fin NInf = False"
| "is_fin NaN = False"

fun val :: "scalar \<Rightarrow> real" where
  "val (Fin a) = a"
| "val PInf = 0"
| "val NInf = 0"
| "val NaN = 0"

subsection \<open>Rounding\<close>

text \<open>Rounding of a real number to the nearest integer, to the even one at a tie.\<close>

definition rne :: "real \<Rightarrow> int" where
  "rne x =
     (let f = \<lfloor>x\<rfloor>; r = x - of_int f
      in if r < 1 / 2 then f else if 1 / 2 < r then f + 1 else if even f then f else f + 1)"

text \<open>
  The exponent of the last place of \<open>x\<close> in a format with \<open>p\<close> significant bits whose
  least normal exponent is \<open>emin\<close>: below \<open>2 powi emin\<close> the spacing of the format
  no longer shrinks (subnormal numbers).
\<close>

definition ulp_exp :: "nat \<Rightarrow> int \<Rightarrow> real \<Rightarrow> int" where
  "ulp_exp p emin x = max \<lfloor>log 2 \<bar>x\<bar>\<rfloor> emin - (int p - 1)"

definition rnd :: "nat \<Rightarrow> int \<Rightarrow> real \<Rightarrow> real" where
  "rnd p emin x =
     (if x = 0 then 0
      else of_int (rne (x / 2 powi ulp_exp p emin x)) * 2 powi ulp_exp p emin x)"

text \<open>The sign of an infinity.\<close>

definition signed_inf :: "bool \<Rightarrow> scalar" where
  "signed_inf positive = (if positive then PInf else NInf)"

text \<open>Rounding into a format with greatest exponent \<open>emax\<close>: beyond it the result is infinite.\<close>

definition round_to :: "nat \<Rightarrow> int \<Rightarrow> int \<Rightarrow> real \<Rightarrow> scalar" where
  "round_to p emin emax x =
     (let y = rnd p emin x
      in if 2 powi (emax + 1) \<le> \<bar>y\<bar> then signed_inf (0 < x) else Fin y)"

definition f32 :: "real \<Rightarrow> scalar" where
  "f32 x = round_to 24 (- 126) 127 x"

definition f64 :: "real \<Rightarrow> scalar" where
  "f64 x = round_to 53 (- 1022) 1023 x"

text \<open>The finite part of the two roundings.\<close>

definition r32 :: "real \<Rightarrow> real" where
  "r32 x = rnd 24 (- 126) x"

definition r64 :: "real \<Rightarrow> real" where
  "r64 x = rnd 53 (- 1022) x"

text \<open>The conversion of a Python float to single precision.\<close>

fun to_f32 :: "scalar \<Rightarrow> scalar" where
  "to_f32 (Fin a) = f32 a"
| "to_f32 PInf = PInf"
| "to_f32 NInf = NInf"
| "to_f32 NaN = NaN"

subsection \<open>Single-precision operations\<close>

fun fadd :: "scalar \<Rightarrow> scalar \<Rightarrow> scalar" where
  "fadd NaN y = NaN"
| "fadd (Fin a) NaN = NaN"
| "fadd PInf NaN = NaN"
| "fadd NInf NaN = NaN"
| "fadd (Fin a) (Fin b) = f32 (a + b)"
| "fadd (Fin a) PInf = PInf"
| "fadd (Fin a) NInf = NInf"
| "fadd PInf (Fin b) = PInf"
| "fadd PInf PInf = PInf"
| "fadd PInf NInf = NaN"
| "fadd NInf (Fin b) = NInf"
| "fadd NInf PInf = NaN"
| "fadd NInf NInf = NInf"

fun fneg :: "scalar \<Rightarrow> scalar" where
  "fneg (Fin a) = Fin (- a)"
| "fneg PInf = NInf"
| "fneg NInf = PInf"
| "fneg NaN = NaN"

definition fsub :: "scalar \<Rightarrow> scalar \<Rightarrow> scalar" where
  "fsub x y = fadd x (fneg y)"

fun fmul :: "scalar \<Rightarrow> scalar \<Rightarrow> scalar" where
  "fmul NaN y = NaN"
| "fmul (Fin a) NaN = NaN"
| "fmul PInf NaN = NaN"
| "fmul NInf NaN = NaN"
| "fmul (Fin a) (Fin b) = f32 (a * b)"
| "fmul (Fin a) PInf = (if a = 0 then NaN else signed_inf (0 < a))"
| "fmul (Fin a) NInf = (if a = 0 then NaN else signed_inf (a < 0))"
| "fmul PInf (Fin b) = (if b = 0 then NaN else signed_inf (0 < b))"
| "fmul NInf (Fin b) = (if b = 0 then NaN else signed_inf (b < 0))"
| "fmul PInf PInf = PInf"
| "fmul PInf NInf = NInf"
| "fmul NInf PInf = NInf"
| "fmul NInf NInf = PInf"

text \<open>Division: a zero divisor gives an infinity, or NaN for \<open>0 / 0\<close>; it never raises.\<close>

fun fdiv :: "scalar \<Rightarrow> scalar \<Rightarrow> scalar" where
  "fdiv NaN y = NaN"
| "fdiv (Fin a) NaN = NaN"
| "fdiv PInf NaN = NaN"
| "fdiv NInf NaN = NaN"
| "fdiv (Fin a) (Fin b) =
     (if b = 0 then (if a = 0 then NaN else signed_inf (0 < a)) else f32 (a / b))"
| "fdiv (Fin a) PInf = Fin 0"
| "fdiv (Fin a) NInf = Fin 0"
| "fdiv PInf (Fin b) = signed_inf (0 \<le> b)"
| "fdiv NInf (Fin b) = signed_inf (b < 0)"
| "fdiv PInf PInf = NaN"
| "fdiv PInf NInf = NaN"
| "fdiv NInf PInf = NaN"
| "fdiv NInf NInf = NaN"

text \<open>
  \<^verbatim>\<open>torch.log\<close> and the exponential of \<^verbatim>\<open>torch.softmax\<close>: the value of the function
  rounded to single precision (the library's functions are accurate to about one unit
  in the last place; they are modelled as correctly rounded). The logarithm is minus
  infinity at zero and NaN below; the exponential of a large negative number
  underflows to zero.
\<close>

fun flog :: "scalar \<Rightarrow> scalar" where
  "flog (Fin a) = (if 0 < a then f32 (ln a) else if a = 0 then NInf else NaN)"
| "flog PInf = PInf"
| "flog NInf = NaN"
| "flog NaN = NaN"

fun fexp :: "scalar \<Rightarrow> scalar" where
  "fexp (Fin a) = f32 (exp a)"
| "fexp PInf = PInf"
| "fexp NInf = Fin 0"
| "fexp NaN = NaN"

subsection \<open>Double-precision operations of Python\<close>

text \<open>
  \<^verbatim>\<open>count / total_count\<close> on two positive integers: the quotient, correctly rounded.
  \<^verbatim>\<open>delta * features.shape[1]\<close>: the integer is converted first.
\<close>

definition py_int_div :: "nat \<Rightarrow> nat \<Rightarrow> scalar" where
  "py_int_div a b = f64 (real a / real b)"

fun dmul :: "scalar \<Rightarrow> scalar \<Rightarrow> scalar" where
  "dmul NaN y = NaN"
| "dmul (Fin a) NaN = NaN"
| "dmul PInf NaN = NaN"
| "dmul NInf NaN = NaN"
| "dmul (Fin a) (Fin b) = f64 (a * b)"
| "dmul (Fin a) PInf = (if a = 0 then NaN else signed_inf (0 < a))"
| "dmul (Fin a) NInf = (if a = 0 then NaN else signed_inf (a < 0))"
| "dmul PInf (Fin b) = (if b = 0 then NaN else signed_inf (0 < b))"
| "dmul NInf (Fin b) = (if b = 0 then NaN else signed_inf (b < 0))"
| "dmul PInf PInf = PInf"
| "dmul PInf NInf = NInf"
| "dmul NInf PInf = NInf"
| "dmul NInf NInf = PInf"

definition py_float_times_int :: "scalar \<Rightarrow> nat \<Rightarrow> scalar" where
  "py_float_times_int x n = dmul x (f64 (real n))"

subsection \<open>Comparison\<close>

text \<open>The order of the non-NaN values; every comparison with NaN is false.\<close>

fun fless :: "scalar \<Rightarrow> scalar \<Rightarrow> bool" where
  "fless NaN y = False"
| "fless (Fin a) NaN = False"
| "fless PInf NaN = False"
| "fless NInf NaN = False"
| "fless (Fin a) (Fin b) = (a < b)"
| "fless (Fin a) PInf = True"
| "fless (Fin a) NInf = False"
| "fless PInf y = False"
| "fless NInf (Fin b) = True"
| "fless NInf PInf = True"
| "fless NInf NInf = False"

section \<open>Tensor operations used by the classifier\<close>

text \<open>A one-dimensional tensor is the list of its entries.\<close>

type_synonym tensor = "scalar list"

definition zeros :: "nat \<Rightarrow> tensor" where
  "zeros n = replicate n (Fin 0)"

text \<open>
  \<^verbatim>\<open>torch.sum\<close> of a one-dimensional tensor, accumulated from left to right in single
  precision. The library may add the entries in another order; the result does not
  depend on the order as long as every partial sum is representable, as are the sums
  of counts up to \<open>2^24\<close>.
\<close>

definition tsum :: "tensor \<Rightarrow> scalar" where
  "tsum xs = foldl fadd (Fin 0) xs"

text \<open>Element-wise sum of two tensors of one length.\<close>

definition tadd :: "tensor \<Rightarrow> tensor \<Rightarrow> tensor" where
  "tadd xs ys = map2 fadd xs ys"

text \<open>
  Element-wise product with broadcasting: the lengths agree, or one of them is 1;
  any other pair of shapes raises \<^verbatim>\<open>RuntimeError\<close>.
\<close>

definition tmul :: "tensor \<Rightarrow> tensor \<Rightarrow> py_error + tensor" where
  "tmul xs ys =
     (if length xs = length ys then Inr (map2 fmul xs ys)
      else if length xs = 1 then Inr (map (fmul (hd xs)) ys)
      else if length ys = 1 then Inr (map (\<lambda>x. fmul x (hd ys)) xs)
      else Inl RuntimeError)"

text \<open>
  \<^verbatim>\<open>torch.argmax\<close> of a one-dimensional tensor. The running best entry is replaced
  only by a strictly greater one, or by the first NaN (which then stays): the lowest
  index of the greatest entry wins. An empty tensor raises.
\<close>

definition replaces :: "scalar \<Rightarrow> scalar \<Rightarrow> bool" where
  "replaces x best = (best \<noteq> NaN \<and> (x = NaN \<or> fless best x))"

fun argmax_loop :: "tensor \<Rightarrow> nat \<Rightarrow> nat \<Rightarrow> scalar \<Rightarrow> nat" where
  "argmax_loop [] i best_i best = best_i"
| "argmax_loop (x # xs) i best_i best =
     (if replaces x best then argmax_loop xs (Suc i) i x
      else argmax_loop xs (Suc i) best_i best)"

definition argmax :: "tensor \<Rightarrow> py_error + nat" where
  "argmax xs = (case xs of [] \<Rightarrow> Inl IndexError | x # rest \<Rightarrow> Inr (argmax_loop rest 1 0 x))"

text \<open>
  \<^verbatim>\<open>torch.softmax\<close> along the only dimension: the maximum is subtracted before the
  exponential, and each exponential is divided by their sum, every step in single
  precision. A NaN entry makes the maximum NaN.
\<close>

definition fmax :: "scalar \<Rightarrow> scalar \<Rightarrow> scalar" where
  "fmax x y = (if x = NaN \<or> y = NaN then NaN else if fless x y then y else x)"

definition tmax :: "tensor \<Rightarrow> scalar" where
  "tmax xs = foldl fmax NInf xs"

definition softmax :: "tensor \<Rightarrow> tensor" where
  "softmax xs =
     (let m = tmax xs;
          es = map (\<lambda>x. fexp (fsub x m)) xs;
          s = tsum es
      in map (\<lambda>e. fdiv e s) es)"

text \<open>
  A two-dimensional tensor: its second dimension and its rows. Every row of a tensor
  has \<open>ncols\<close> entries (\<open>rectangular\<close>); the shape is kept apart from the rows
  because a tensor without rows still has a second dimension.
\<close>

record tensor2d =
  ncols :: nat
  rows :: "tensor list"

definition rectangular :: "tensor2d \<Rightarrow> bool" where
  "rectangular features = list_all (\<lambda>r. length r = ncols features) (rows features)"

text \<open>
  Indexing with a boolean mask, \<^verbatim>\<open>features[mask]\<close>: the mask must be as long as the
  first dimension (\<^verbatim>\<open>IndexError\<close> otherwise); the rows under a true entry are kept.
\<close>

definition mask_select :: "tensor2d \<Rightarrow> bool list \<Rightarrow> py_error + tensor list" where
  "mask_select features bmask =
     (if length bmask \<noteq> length (rows features) then Inl IndexError
      else Inr (map snd (filter fst (zip bmask (rows features)))))"

text \<open>
  \<^verbatim>\<open>torch.sum(rows, dim=0)\<close>: the element-wise sum of the rows, accumulated row after
  row in single precision.
\<close>

definition sum_dim0 :: "nat \<Rightarrow> tensor list \<Rightarrow> tensor" where
  "sum_dim0 n rs = foldl tadd (zeros n) rs"

text \<open>\<^verbatim>\<open>torch.unique\<close> of the labels: the distinct values in ascending order.\<close>

definition unique :: "int list \<Rightarrow> int list" where
  "unique labels = sort (remdups labels)"

text \<open>
  Indexing a tensor of \<open>n\<close> entries with a Python integer: a negative index counts
  from the end, an index out of range raises \<^verbatim>\<open>IndexError\<close>.
\<close>

definition tensor_index :: "nat \<Rightarrow> int \<Rightarrow> py_error + nat" where
  "tensor_index n idx =
     (if 0 \<le> idx \<and> idx < int n then Inr (nat idx)
      else if - int n \<le> idx \<and> idx < 0 then Inr (nat (int n + idx))
      else Inl IndexError)"

section \<open>Vocabulary and bag of words\<close>

text \<open>
  A dictionary is an association list in insertion order; \<open>AList.update\<close> is the
  assignment \<^verbatim>\<open>d[k] = v\<close> (in place for a key that is present, appended otherwise)
  and \<open>map_of\<close> the lookup.
\<close>

text \<open>
  Modelled from the spec: the class \<^verbatim>\<open>SentimentExample\<close> is declared in the module
  \<^verbatim>\<open>utils\<close>, which is not among the sources. An example is an ordered sequence of
  token strings and an integer label (section 3); \<open>build_vocab\<close> reads the tokens
  through the field \<^verbatim>\<open>_words\<close>.
\<close>

record SentimentExample =
  words :: "string list"
  label :: int

type_synonym vocabulary = "(string \<times> int) list"

text \<open>
  \<^verbatim>\<open>build_vocab\<close> (data_processing.py). One pass of the inner loop is \<open>vocab_step\<close>:
  the state is the dictionary and the counter \<open>i\<close>.
\<close>

definition vocab_step :: "vocabulary \<times> int \<Rightarrow> string \<Rightarrow> vocabulary \<times> int" where
  "vocab_step st word =
     (case st of (vocab, i) \<Rightarrow>
        if map_of vocab word = None then (AList.update word i vocab, i + 1) else (vocab, i))"

definition build_vocab :: "SentimentExample list \<Rightarrow> vocabulary" where
  "build_vocab examples =
     fst (foldl (\<lambda>st example. foldl vocab_step st (words example)) ([], 0) examples)"

text \<open>
  \<^verbatim>\<open>bag_of_words\<close> (data_processing.py): the loop over the words, then the function.
  The assignment \<^verbatim>\<open>bow[idx]\<close> raises when the index of the vocabulary is out of range.
\<close>

fun bow_loop :: "string list \<Rightarrow> vocabulary \<Rightarrow> bool \<Rightarrow> tensor \<Rightarrow> py_error + tensor" where
  "bow_loop [] vocab binary bow = Inr bow"
| "bow_loop (word # rest) vocab binary bow =
     (case map_of vocab word of
        None \<Rightarrow> bow_loop rest vocab binary bow
      | Some idx \<Rightarrow>
          (case tensor_index (length bow) idx of
             Inl e \<Rightarrow> Inl e
           | Inr j \<Rightarrow>
               bow_loop rest vocab binary
                 (if binary then bow[j := Fin 1] else bow[j := fadd (bow ! j) (Fin 1)])))"

definition bag_of_words :: "string list \<Rightarrow> vocabulary \<Rightarrow> bool \<Rightarrow> py_error + tensor" where
  "bag_of_words text vocab binary = bow_loop text vocab binary (zeros (length vocab))"

text \<open>
  The invariant of a vocabulary (section 3 of the specification): every word has one
  entry, and the indices are unique and fill the range from 0 to the size.
\<close>

definition vocab_wf :: "vocabulary \<Rightarrow> bool" where
  "vocab_wf vocab =
     (distinct (map fst vocab) \<and> distinct (map snd vocab)
      \<and> set (map snd vocab) = set (map int [0..<length vocab]))"

text \<open>The position of the first occurrence of a token in a sequence.\<close>

definition first_pos :: "string list \<Rightarrow> string \<Rightarrow> nat" where
  "first_pos ts w = length (takeWhile (\<lambda>t. t \<noteq> w) ts)"

text \<open>The invariant of the loop of \<open>build_vocab\<close> after the tokens \<open>ts\<close>.\<close>

definition vocab_inv :: "string list \<Rightarrow> vocabulary \<times> int \<Rightarrow> bool" where
  "vocab_inv ts st =
     (case st of (V, i) \<Rightarrow>
        i = int (length V) \<and> map snd V = map int [0..<length V]
        \<and> distinct (map fst V) \<and> set (map fst V) = set ts
        \<and> (\<forall>a x b y. (a, x) \<in> set V \<longrightarrow> (b, y) \<in> set V \<longrightarrow>
              (x < y) = (first_pos ts a < first_pos ts b)))"

section \<open>The classifier\<close>

text \<open>
  The two dictionaries of the model are optional because the source tests them
  against \<^verbatim>\<open>None\<close>.
\<close>

record NaiveBayes =
  class_priors :: "(int \<times> scalar) list option"
  conditional_probabilities :: "(int \<times> tensor) list option"
  vocab_size :: nat

definition NaiveBayes_init :: NaiveBayes where
  "NaiveBayes_init =
     \<lparr>class_priors = Some [], conditional_probabilities = Some [], vocab_size = 0\<rparr>"

text \<open>Python's \<^verbatim>\<open>not d\<close> for an optional dictionary: true for \<^verbatim>\<open>None\<close> and for \<^verbatim>\<open>{}\<close>.\<close>

definition py_not :: "('k \<times> 'v) list option \<Rightarrow> bool" where
  "py_not d = (case d of None \<Rightarrow> True | Some kvs \<Rightarrow> kvs = [])"

text \<open>\<^verbatim>\<open>Counter(labels.tolist())\<close>: the counts, in the order in which the labels first occur.\<close>

definition counter_add :: "(int \<times> nat) list \<Rightarrow> int \<Rightarrow> (int \<times> nat) list" where
  "counter_add counts x =
     AList.update x (case map_of counts x of None \<Rightarrow> 1 | Some c \<Rightarrow> c + 1) counts"

definition Counter :: "int list \<Rightarrow> (int \<times> nat) list" where
  "Counter xs = foldl counter_add [] xs"

text \<open>
  \<^verbatim>\<open>NaiveBayes.estimate_class_priors\<close> (naive_bayes.py): the quotient is a Python
  float, which \<^verbatim>\<open>torch.tensor(..., dtype=torch.float)\<close> converts to single precision.
\<close>

definition estimate_class_priors :: "int list \<Rightarrow> (int \<times> scalar) list" where
  "estimate_class_priors labels =
     (let class_counts = Counter labels;
          total_count = length labels
      in map (\<lambda>(class_label, count). (class_label, to_f32 (py_int_div count total_count)))
           class_counts)"

text \<open>
  \<^verbatim>\<open>NaiveBayes.estimate_conditional_probabilities\<close>: the smoothing of the word counts
  of one class, the loop over the classes of \<^verbatim>\<open>torch.unique(labels)\<close>, and the method.
  \<open>delta\<close> is a Python float; added to a tensor it is converted to single precision,
  and its product with the vocabulary size is computed in double precision first.
\<close>

definition smooth :: "tensor \<Rightarrow> scalar \<Rightarrow> nat \<Rightarrow> tensor" where
  "smooth word_counts delta n =
     (let total_words = tsum word_counts
      in map (\<lambda>c. fdiv (fadd c (to_f32 delta))
                       (fadd total_words (to_f32 (py_float_times_int delta n))))
           word_counts)"

fun conditional_loop ::
  "tensor2d \<Rightarrow> int list \<Rightarrow> scalar \<Rightarrow> int list \<Rightarrow> (int \<times> tensor) list
   \<Rightarrow> py_error + (int \<times> tensor) list"
where
  "conditional_loop features labels delta [] class_word_counts = Inr class_word_counts"
| "conditional_loop features labels delta (class_label # rest) class_word_counts =
     (case mask_select features (map (\<lambda>l. l = class_label) labels) of
        Inl e \<Rightarrow> Inl e
      | Inr class_examples \<Rightarrow>
          (let word_counts = sum_dim0 (ncols features) class_examples;
               smoothed_probs = smooth word_counts delta (ncols features)
           in conditional_loop features labels delta rest
                (AList.update class_label smoothed_probs class_word_counts)))"

definition estimate_conditional_probabilities ::
  "tensor2d \<Rightarrow> int list \<Rightarrow> scalar \<Rightarrow> py_error + (int \<times> tensor) list"
where
  "estimate_conditional_probabilities features labels delta =
     conditional_loop features labels delta (unique labels) []"

text \<open>
  \<open>fit\<close> assigns the three fields one after the other; when the estimation of the
  conditional probabilities raises, the first two assignments have been made. The
  result is the model after the call and the exception, if any.
\<close>

definition fit ::
  "NaiveBayes \<Rightarrow> tensor2d \<Rightarrow> int list \<Rightarrow> scalar \<Rightarrow> NaiveBayes \<times> py_error option"
where
  "fit self features labels delta =
     (let self1 = self\<lparr>class_priors := Some (estimate_class_priors labels)\<rparr>;
          self2 = self1\<lparr>vocab_size := ncols features\<rparr>
      in case estimate_conditional_probabilities features labels delta of
           Inl e \<Rightarrow> (self2, Some e)
         | Inr probs \<Rightarrow> (self2\<lparr>conditional_probabilities := Some probs\<rparr>, None))"

text \<open>
  \<^verbatim>\<open>NaiveBayes.estimate_class_posteriors\<close>: the loop over
  \<^verbatim>\<open>enumerate(self.class_priors.items())\<close>, and the method with its guard.
\<close>

fun posteriors_loop ::
  "(int \<times> tensor) list \<Rightarrow> tensor \<Rightarrow> (nat \<times> int \<times> scalar) list \<Rightarrow> tensor \<Rightarrow> py_error + tensor"
where
  "posteriors_loop cond feature [] log_posteriors = Inr log_posteriors"
| "posteriors_loop cond feature ((idx, class_label, class_prior) # rest) log_posteriors =
     (case map_of cond class_label of
        None \<Rightarrow> Inl KeyError
      | Some probs \<Rightarrow>
          (case tmul feature (map flog probs) of
             Inl e \<Rightarrow> Inl e
           | Inr weighted \<Rightarrow>
               posteriors_loop cond feature rest
                 (log_posteriors[idx := fadd (flog class_prior) (tsum weighted)])))"

definition estimate_class_posteriors :: "NaiveBayes \<Rightarrow> tensor \<Rightarrow> py_error + tensor" where
  "estimate_class_posteriors self feature =
     (case conditional_probabilities self of
        None \<Rightarrow> Inl ValueError
      | Some cond \<Rightarrow>
          (case class_priors self of
             None \<Rightarrow> Inl ValueError
           | Some priors \<Rightarrow>
               posteriors_loop cond feature (enumerate 0 priors) (zeros (length priors))))"

text \<open>\<^verbatim>\<open>NaiveBayes.predict\<close> and \<^verbatim>\<open>NaiveBayes.predict_proba\<close>.\<close>

definition predict :: "NaiveBayes \<Rightarrow> tensor \<Rightarrow> py_error + int" where
  "predict self feature =
     (if py_not (class_priors self) \<or> py_not (conditional_probabilities self)
      then Inl PyException
      else (case estimate_class_posteriors self feature of
              Inl e \<Rightarrow> Inl e
            | Inr log_posteriors \<Rightarrow>
                (case argmax log_posteriors of
                   Inl e \<Rightarrow> Inl e
                 | Inr pred \<Rightarrow> Inr (int pred))))"

definition predict_proba :: "NaiveBayes \<Rightarrow> tensor \<Rightarrow> py_error + tensor" where
  "predict_proba self feature =
     (if py_not (class_priors self) \<or> py_not (conditional_probabilities self)
      then Inl PyException
      else (case estimate_class_posteriors self feature of
              Inl e \<Rightarrow> Inl e
            | Inr log_posteriors \<Rightarrow> Inr (softmax log_posteriors)))"

section \<open>Notions used to state the properties of training\<close>

text \<open>
  The vector that one pass of the loop of \<open>estimate_conditional_probabilities\<close> stores
  for a class.
\<close>

definition class_probs :: "tensor2d \<Rightarrow> int list \<Rightarrow> scalar \<Rightarrow> int \<Rightarrow> tensor" where
  "class_probs features labels delta c =
     smooth (sum_dim0 (ncols features)
               (map snd (filter fst (zip (map (\<lambda>l. l = c) labels) (rows features)))))
       delta (ncols features)"

text \<open>
  The quantities of the specification: the count of word \<open>i\<close> in a class is the sum of
  entry \<open>i\<close> over the examples of the class, and the total of a class is the sum of
  its word counts.
\<close>

definition spec_word_count :: "tensor2d \<Rightarrow> int list \<Rightarrow> int \<Rightarrow> nat \<Rightarrow> real" where
  "spec_word_count features labels c i =
     (\<Sum>(l, r) \<leftarrow> zip labels (rows features). if l = c then val (r ! i) else 0)"

definition spec_total_words :: "tensor2d \<Rightarrow> int list \<Rightarrow> int \<Rightarrow> real" where
  "spec_total_words features labels c =
     (\<Sum>i \<leftarrow> [0..<ncols features]. spec_word_count features labels c i)"

text \<open>
  A feature matrix of the data model (section 3 of the specification): rectangular,
  every entry a presence flag or an occurrence count, that is a natural number.
\<close>

definition count_entry :: "scalar \<Rightarrow> bool" where
  "count_entry x = (is_fin x \<and> val x \<in> \<nat>)"

definition count_vector :: "nat \<Rightarrow> tensor \<Rightarrow> bool" where
  "count_vector n xs = (length xs = n \<and> list_all count_entry xs)"

definition count_matrix :: "tensor2d \<Rightarrow> bool" where
  "count_matrix features = list_all (count_vector (ncols features)) (rows features)"

text \<open>
  The value that one pass of the loop of \<open>estimate_class_posteriors\<close> stores for an
  entry of \<open>class_priors\<close>, or what it raises.
\<close>

definition class_log_posterior ::
  "(int \<times> tensor) list \<Rightarrow> tensor \<Rightarrow> int \<times> scalar \<Rightarrow> py_error + scalar" where
  "class_log_posterior cond feature entry =
     (case map_of cond (fst entry) of
        None \<Rightarrow> Inl KeyError
      | Some probs \<Rightarrow>
          (case tmul feature (map flog probs) of
             Inl e \<Rightarrow> Inl e
           | Inr weighted \<Rightarrow> Inr (fadd (flog (snd entry)) (tsum weighted))))"

text \<open>
  The same value in a model that \<open>fit\<close> has trained, where neither the lookup nor the
  product raises.
\<close>

definition trained_log_posterior ::
  "tensor2d \<Rightarrow> int list \<Rightarrow> scalar \<Rightarrow> tensor \<Rightarrow> int \<times> scalar \<Rightarrow> scalar" where
  "trained_log_posterior F labels delta feature entry =
     fadd (flog (snd entry))
       (tsum (map2 fmul feature (map flog (class_probs F labels delta (fst entry)))))"

section \<open>Properties of rounding\<close>

lemma rne_of_int: "rne (of_int k) = k"
  by (simp add: rne_def)

lemma rne_error: "\<bar>of_int (rne x) - x\<bar> \<le> 1 / 2"
proof -
  have "of_int \<lfloor>x\<rfloor> \<le> x" "x < of_int \<lfloor>x\<rfloor> + 1" by linarith+
  then show ?thesis by (auto simp: rne_def Let_def)
qed

lemma rne_bounds: "\<lfloor>x\<rfloor> \<le> rne x" "rne x \<le> \<lfloor>x\<rfloor> + 1"
  by (auto simp: rne_def Let_def)

lemma rne_mono: "x \<le> y \<Longrightarrow> rne x \<le> rne y"
proof -
  assume xy: "x \<le> y"
  then have fl: "\<lfloor>x\<rfloor> \<le> \<lfloor>y\<rfloor>" by (rule floor_mono)
  show ?thesis
  proof (cases "\<lfloor>x\<rfloor> = \<lfloor>y\<rfloor>")
    case True
    then show ?thesis using xy by (auto simp: rne_def Let_def)
  next
    case False
    with fl have "\<lfloor>x\<rfloor> + 1 \<le> \<lfloor>y\<rfloor>" by simp
    with rne_bounds(2)[of x] rne_bounds(1)[of y] show ?thesis by linarith
  qed
qed

lemma rne_neg: "rne (- x) = - rne x"
proof (cases "x \<in> \<int>")
  case True
  then obtain k where "x = of_int k" by (auto elim: Ints_cases)
  then have "rne x = k" "rne (- x) = - k"
    using rne_of_int[of k] rne_of_int[of "- k"] by simp_all
  then show ?thesis by simp
next
  case False
  then have "x \<noteq> of_int \<lfloor>x\<rfloor>" by (metis Ints_of_int)
  then have fl: "\<lfloor>- x\<rfloor> = - \<lfloor>x\<rfloor> - 1"
    by (simp add: floor_minus ceiling_altdef)
  have "of_int \<lfloor>x\<rfloor> \<le> x" "x < of_int \<lfloor>x\<rfloor> + 1" by linarith+
  then show ?thesis
    unfolding rne_def Let_def fl by auto
qed

lemma expo_bounds:
  assumes "x \<noteq> 0"
  shows "2 powi \<lfloor>log 2 \<bar>x\<bar>\<rfloor> \<le> \<bar>x\<bar>" and "\<bar>x\<bar> < 2 powi (\<lfloor>log 2 \<bar>x\<bar>\<rfloor> + 1)"
proof -
  have pos: "0 < \<bar>x\<bar>" using assms by simp
  from floor_log_eq_powr_iff[OF pos, of 2 "\<lfloor>log 2 \<bar>x\<bar>\<rfloor>"]
  have "2 powr real_of_int \<lfloor>log 2 \<bar>x\<bar>\<rfloor> \<le> \<bar>x\<bar>"
    and "\<bar>x\<bar> < 2 powr real_of_int (\<lfloor>log 2 \<bar>x\<bar>\<rfloor> + 1)"
    by simp_all
  then show "2 powi \<lfloor>log 2 \<bar>x\<bar>\<rfloor> \<le> \<bar>x\<bar>" and "\<bar>x\<bar> < 2 powi (\<lfloor>log 2 \<bar>x\<bar>\<rfloor> + 1)"
    by (simp_all only: powr_real_of_int'[of 2, simplified])
qed

lemma expo_unique:
  assumes "2 powi k \<le> \<bar>x\<bar>" "\<bar>x\<bar> < 2 powi (k + 1)"
  shows "\<lfloor>log 2 \<bar>x\<bar>\<rfloor> = k"
proof -
  have "(0::real) < 2 powi k" by simp
  with assms(1) have pos: "0 < \<bar>x\<bar>" by linarith
  have "2 powr real_of_int k \<le> \<bar>x\<bar>" "\<bar>x\<bar> < 2 powr real_of_int (k + 1)"
    using assms by (simp_all only: powr_real_of_int'[of 2, simplified])
  then show ?thesis
    using floor_log_eq_powr_iff[OF pos, of 2 k] by simp
qed

lemma pow2_mono: "a \<le> b \<Longrightarrow> (2::real) powi a \<le> 2 powi b"
  by (rule power_int_increasing) simp_all

lemma pow2_strict_mono: "a < b \<Longrightarrow> (2::real) powi a < 2 powi b"
  by (rule power_int_strict_increasing) simp_all

lemma pow2_add: "(2::real) powi (a + b) = 2 powi a * 2 powi b"
  by (simp add: power_int_add)

lemma pow2_diff: "(2::real) powi (a - b) = 2 powi a / 2 powi b"
  by (simp add: power_int_diff)

lemma ulp_exp_neg: "ulp_exp p emin (- x) = ulp_exp p emin x"
  by (simp add: ulp_exp_def)

lemma rnd_zero: "rnd p emin 0 = 0"
  by (simp add: rnd_def)

lemma rnd_neg: "rnd p emin (- x) = - rnd p emin x"
  by (simp add: rnd_def ulp_exp_neg rne_neg)

lemma ulp_exp_at:
  assumes "2 powi e \<le> \<bar>x\<bar>" "\<bar>x\<bar> < 2 powi (e + 1)"
  shows "ulp_exp p emin x = max e emin - (int p - 1)"
  by (simp add: ulp_exp_def expo_unique[OF assms])

lemma rnd_at:
  assumes "2 powi e \<le> \<bar>x\<bar>" "\<bar>x\<bar> < 2 powi (e + 1)"
  shows "rnd p emin x =
           of_int (rne (x / 2 powi (max e emin - (int p - 1)))) * 2 powi (max e emin - (int p - 1))"
proof -
  have "(0::real) < 2 powi e" by simp
  with assms(1) have "0 < \<bar>x\<bar>" by linarith
  then have "x \<noteq> 0" by simp
  then show ?thesis by (simp add: rnd_def ulp_exp_at[OF assms])
qed

lemma rnd_exact:
  assumes "x / 2 powi ulp_exp p emin x = of_int k"
  shows "rnd p emin x = x"
proof (cases "x = 0")
  case True
  then show ?thesis by (simp add: rnd_def)
next
  case False
  have "of_int k * 2 powi ulp_exp p emin x = x"
    using assms by (simp add: field_simps)
  then show ?thesis using False by (simp add: rnd_def assms rne_of_int)
qed

lemma rnd_error:
  assumes "x \<noteq> 0"
  shows "\<bar>rnd p emin x - x\<bar> \<le> 2 powi ulp_exp p emin x / 2"
proof -
  let ?u = "(2::real) powi ulp_exp p emin x"
  have u: "0 < ?u" by simp
  have "rnd p emin x - x = (of_int (rne (x / ?u)) - x / ?u) * ?u"
    using assms u by (simp add: rnd_def field_simps)
  then have "\<bar>rnd p emin x - x\<bar> = \<bar>of_int (rne (x / ?u)) - x / ?u\<bar> * ?u"
    using u by (simp add: abs_mult)
  also have "\<dots> \<le> (1 / 2) * ?u"
    using rne_error[of "x / ?u"] u by (intro mult_right_mono) simp_all
  finally show ?thesis by simp
qed

lemma rnd_nonneg: "0 \<le> x \<Longrightarrow> 0 \<le> rnd p emin x"
proof -
  assume x: "0 \<le> x"
  have "0 \<le> x / 2 powi ulp_exp p emin x" using x by simp
  from rne_mono[OF this] have "0 \<le> rne (x / 2 powi ulp_exp p emin x)"
    using rne_of_int[of 0] by simp
  then show ?thesis by (simp add: rnd_def)
qed

lemma rnd_pow2:
  assumes "emin - (int p - 1) \<le> k" "0 < p"
  shows "rnd p emin (2 powi k) = 2 powi k"
proof -
  let ?x = "(2::real) powi k"
  have b: "2 powi k \<le> \<bar>?x\<bar>" "\<bar>?x\<bar> < 2 powi (k + 1)"
    using pow2_strict_mono[of k "k + 1"] by simp_all
  let ?q = "max k emin - (int p - 1)"
  have q: "ulp_exp p emin ?x = ?q" by (rule ulp_exp_at[OF b])
  have "?q \<le> k" using assms by auto
  then obtain n where n: "k - ?q = int n" by (metis diff_ge_0_iff_ge nonneg_int_cases)
  have "?x / 2 powi ?q = 2 powi (k - ?q)" by (simp add: pow2_diff)
  also have "\<dots> = of_int (2 ^ n)" by (simp add: n)
  finally show ?thesis using rnd_exact[of ?x p emin "2 ^ n"] q by simp
qed

lemma rnd_mono_pos:
  assumes "0 < x" "x \<le> y" and p: "0 < p"
  shows "rnd p emin x \<le> rnd p emin y"
proof -
  have y: "0 < y" using assms by simp
  let ?ex = "\<lfloor>log 2 \<bar>x\<bar>\<rfloor>" and ?ey = "\<lfloor>log 2 \<bar>y\<bar>\<rfloor>"
  let ?qx = "ulp_exp p emin x" and ?qy = "ulp_exp p emin y"
  have bdx: "2 powi ?ex \<le> x" "x < 2 powi (?ex + 1)"
    using expo_bounds[of x] assms(1) by simp_all
  have bdy: "2 powi ?ey \<le> y" "y < 2 powi (?ey + 1)"
    using expo_bounds[of y] y by simp_all
  have "log 2 x \<le> log 2 y" using assms(1,2) by simp
  then have exy: "?ex \<le> ?ey" using assms(1) y by (simp add: floor_mono)
  show ?thesis
  proof (cases "max ?ex emin = max ?ey emin")
    case True
    then have q: "?qx = ?qy" by (simp add: ulp_exp_def)
    have "x / 2 powi ?qy \<le> y / 2 powi ?qy" using assms(2) by (simp add: divide_right_mono)
    from rne_mono[OF this] have "of_int (rne (x / 2 powi ?qy)) * 2 powi ?qy
        \<le> (of_int (rne (y / 2 powi ?qy)) :: real) * 2 powi ?qy"
      by (intro mult_right_mono) simp_all
    then show ?thesis using assms(1) y by (simp add: rnd_def q)
  next
    case False
    with exy have lt: "max ?ex emin < max ?ey emin" by auto
    then have eyy: "max ?ey emin = ?ey" by auto
    let ?mx = "max ?ex emin"
    have qx: "?qx = ?mx - (int p - 1)" by (simp add: ulp_exp_def)
    have qy: "?qy = ?ey - (int p - 1)" using eyy by (simp add: ulp_exp_def)
    \<comment> \<open>upper bound of the rounding of x\<close>
    have "x < 2 powi (?mx + 1)"
      using bdx(2) pow2_mono[of "?ex + 1" "?mx + 1"] by simp
    then have "x / 2 powi ?qx < 2 powi (?mx + 1) / 2 powi ?qx"
      by (simp add: divide_strict_right_mono)
    also have "2 powi (?mx + 1) / 2 powi ?qx = (2::real) powi int p"
      unfolding qx pow2_diff[symmetric] by simp
    finally have "x / 2 powi ?qx \<le> of_int (2 ^ p)" by simp
    from rne_mono[OF this] have "rne (x / 2 powi ?qx) \<le> 2 ^ p"
      by (simp only: rne_of_int)
    then have "(of_int (rne (x / 2 powi ?qx)) :: real) \<le> 2 powi int p"
      by (metis of_int_le_iff of_int_numeral of_int_power power_int_of_nat)
    then have "of_int (rne (x / 2 powi ?qx)) * 2 powi ?qx \<le> (2::real) powi int p * 2 powi ?qx"
      by (intro mult_right_mono) simp_all
    also have "\<dots> = 2 powi (?mx + 1)"
      unfolding pow2_add[symmetric] qx by simp
    finally have ux: "rnd p emin x \<le> 2 powi (?mx + 1)"
      using assms(1) by (simp add: rnd_def)
    \<comment> \<open>lower bound of the rounding of y\<close>
    obtain p' where p': "p = Suc p'" using p by (cases p) auto
    have "2 powi ?ey / 2 powi ?qy \<le> y / 2 powi ?qy"
      using bdy(1) by (simp add: divide_right_mono)
    moreover have "2 powi ?ey / 2 powi ?qy = (2::real) powi (int p - 1)"
      unfolding qy pow2_diff[symmetric] by simp
    ultimately have "of_int (2 ^ p') \<le> y / 2 powi ?qy" by (simp add: p')
    from rne_mono[OF this] have "2 ^ p' \<le> rne (y / 2 powi ?qy)"
      by (simp only: rne_of_int)
    then have "(2::real) powi (int p - 1) \<le> of_int (rne (y / 2 powi ?qy))"
      by (simp add: p')
    then have "(2::real) powi (int p - 1) * 2 powi ?qy
                 \<le> of_int (rne (y / 2 powi ?qy)) * 2 powi ?qy"
      by (intro mult_right_mono) simp_all
    moreover have "(2::real) powi (int p - 1) * 2 powi ?qy = 2 powi ?ey"
      unfolding pow2_add[symmetric] qy by simp
    ultimately have ly: "2 powi ?ey \<le> rnd p emin y"
      using y by (simp add: rnd_def)
    have "(2::real) powi (?mx + 1) \<le> 2 powi ?ey"
      using lt eyy by (intro pow2_mono) linarith
    with ux ly show ?thesis by linarith
  qed
qed

lemma rnd_mono:
  assumes "x \<le> y" "0 < p"
  shows "rnd p emin x \<le> rnd p emin y"
proof -
  consider "0 < x" | "x \<le> 0" "0 \<le> y" | "y < 0" by linarith
  then show ?thesis
  proof cases
    case 1
    then show ?thesis by (rule rnd_mono_pos[OF _ assms])
  next
    case 2
    have "0 \<le> rnd p emin y" by (rule rnd_nonneg[OF 2(2)])
    moreover have "0 \<le> rnd p emin (- x)" using 2(1) by (intro rnd_nonneg) simp
    ultimately show ?thesis by (simp add: rnd_neg)
  next
    case 3
    have "rnd p emin (- y) \<le> rnd p emin (- x)"
      using 3 assms by (intro rnd_mono_pos) simp_all
    then show ?thesis by (simp add: rnd_neg)
  qed
qed

lemma rnd_abs_le:
  assumes "\<bar>x\<bar> \<le> 2 powi b" "emin - (int p - 1) \<le> b" "0 < p"
  shows "\<bar>rnd p emin x\<bar> \<le> 2 powi b"
proof -
  have "- (2 powi b) \<le> x" "x \<le> 2 powi b" using assms(1) by linarith+
  from rnd_mono[OF this(1) assms(3), of emin] rnd_mono[OF this(2) assms(3), of emin]
  show ?thesis
    by (simp add: rnd_neg rnd_pow2[OF assms(2,3)])
qed

lemma round_to_abs:
  assumes "\<bar>x\<bar> \<le> 2 powi b" "emin - (int p - 1) \<le> b" "b \<le> emax" "0 < p"
  shows "round_to p emin emax x = Fin (rnd p emin x)" and "\<bar>rnd p emin x\<bar> \<le> 2 powi b"
proof -
  show le: "\<bar>rnd p emin x\<bar> \<le> 2 powi b" by (rule rnd_abs_le[OF assms(1,2,4)])
  have "(2::real) powi b < 2 powi (emax + 1)"
    using assms(3) by (intro pow2_strict_mono) simp
  with le show "round_to p emin emax x = Fin (rnd p emin x)"
    by (simp add: round_to_def Let_def)
qed

lemma rnd_range:
  assumes "2 powi a \<le> x" "x \<le> 2 powi b" "emin - (int p - 1) \<le> a" "0 < p"
  shows "2 powi a \<le> rnd p emin x" and "rnd p emin x \<le> 2 powi b"
proof -
  have "(0::real) < 2 powi a" by simp
  with assms(1,2) have "(2::real) powi a \<le> 2 powi b" by linarith
  then have ab: "a \<le> b"
    by (metis linorder_not_less pow2_strict_mono)
  from rnd_mono[OF assms(1) assms(4), of emin] show "2 powi a \<le> rnd p emin x"
    by (simp add: rnd_pow2[OF assms(3,4)])
  have "emin - (int p - 1) \<le> b" using assms(3) ab by simp
  from rnd_mono[OF assms(2) assms(4), of emin] rnd_pow2[OF this assms(4)]
  show "rnd p emin x \<le> 2 powi b" by simp
qed

lemma rnd_nat_exact:
  assumes n: "n \<le> 2 ^ p" and j: "emin - (int p - 1) \<le> j" and p: "0 < p"
  shows "rnd p emin (real n * 2 powi j) = real n * 2 powi j"
proof (cases "n = 0")
  case True
  then show ?thesis by (simp add: rnd_zero)
next
  case False
  show ?thesis
  proof (cases "n = 2 ^ p")
    case True
    have "real n * 2 powi j = 2 powi (int p + j)"
      by (simp add: True pow2_add)
    moreover have "emin - (int p - 1) \<le> int p + j" using j by simp
    ultimately show ?thesis using rnd_pow2[OF _ p] by simp
  next
    case ne: False
    let ?x = "real n * 2 powi j"
    have xpos: "0 < ?x" using False by simp
    let ?e = "\<lfloor>log 2 \<bar>?x\<bar>\<rfloor>"
    have "n < 2 ^ p" using n ne by simp
    then have "real n < 2 ^ p" by (metis of_nat_less_iff of_nat_numeral of_nat_power)
    then have "?x < 2 powi (int p + j)"
      by (simp add: pow2_add)
    moreover have "2 powi ?e \<le> ?x" using expo_bounds(1)[of ?x] xpos False by simp
    ultimately have "(2::real) powi ?e < 2 powi (int p + j)" by linarith
    then have e: "?e < int p + j"
      by (metis linorder_not_less pow2_mono)
    let ?q = "ulp_exp p emin ?x"
    have "?q \<le> j" using e j by (auto simp: ulp_exp_def)
    then obtain d where d: "j - ?q = int d" by (metis diff_ge_0_iff_ge nonneg_int_cases)
    have "?x / 2 powi ?q = real n * 2 powi (j - ?q)" by (simp add: pow2_diff)
    also have "\<dots> = of_int (int n * 2 ^ d)" by (simp add: d)
    finally show ?thesis by (rule rnd_exact)
  qed
qed

lemma rnd_error_bound:
  assumes "\<bar>x\<bar> \<le> B" "2 powi emin \<le> B" "0 < p"
  shows "\<bar>rnd p emin x - x\<bar> \<le> B * 2 powi (- int p)"
proof (cases "x = 0")
  case True
  have "0 \<le> B" using assms(1) by linarith
  then show ?thesis using True by (simp add: rnd_zero)
next
  case False
  let ?e = "\<lfloor>log 2 \<bar>x\<bar>\<rfloor>"
  have "2 powi ?e \<le> \<bar>x\<bar>" by (rule expo_bounds(1)[OF False])
  with assms(1) have "2 powi ?e \<le> B" by linarith
  with assms(2) have m: "2 powi (max ?e emin) \<le> B" by (simp add: max_def)
  have "ulp_exp p emin x = max ?e emin + (- (int p - 1))" by (simp add: ulp_exp_def)
  then have "2 powi ulp_exp p emin x = 2 powi (max ?e emin) * (2::real) powi (- (int p - 1))"
    by (simp only: pow2_add)
  also have "\<dots> \<le> B * 2 powi (- (int p - 1))"
    using m by (intro mult_right_mono) simp_all
  finally have u: "2 powi ulp_exp p emin x \<le> B * 2 powi (- (int p - 1))" .
  have "- (int p - 1) = 1 + (- int p)" by simp
  then have "(2::real) powi (- (int p - 1)) = 2 powi 1 * 2 powi (- int p)"
    by (simp only: pow2_add)
  then have h: "(2::real) powi (- (int p - 1)) = 2 * 2 powi (- int p)" by simp
  from u have "2 powi ulp_exp p emin x / 2 \<le> B * 2 powi (- int p)"
    unfolding h by simp
  with rnd_error[OF False, of p emin] show ?thesis by linarith
qed

lemma f32_abs:
  assumes "\<bar>x\<bar> \<le> 2 powi b" "- 149 \<le> b" "b \<le> 127"
  shows "f32 x = Fin (r32 x)" and "\<bar>r32 x\<bar> \<le> 2 powi b"
  using round_to_abs[of x b "- 126" 24 127] assms by (simp_all add: f32_def r32_def)

lemma f64_abs:
  assumes "\<bar>x\<bar> \<le> 2 powi b" "- 1074 \<le> b" "b \<le> 1023"
  shows "f64 x = Fin (r64 x)" and "\<bar>r64 x\<bar> \<le> 2 powi b"
  using round_to_abs[of x b "- 1022" 53 1023] assms by (simp_all add: f64_def r64_def)

lemma r32_mono: "x \<le> y \<Longrightarrow> r32 x \<le> r32 y"
  by (simp add: r32_def rnd_mono)

lemma r64_mono: "x \<le> y \<Longrightarrow> r64 x \<le> r64 y"
  by (simp add: r64_def rnd_mono)

lemma r32_nat: "n \<le> 2 ^ 24 \<Longrightarrow> r32 (real n) = real n"
  using rnd_nat_exact[of n 24 "- 126" 0] by (simp add: r32_def)

lemma r64_nat: "n \<le> 2 ^ 53 \<Longrightarrow> r64 (real n) = real n"
  using rnd_nat_exact[of n 53 "- 1022" 0] by (simp add: r64_def)

lemma f32_nat: "n \<le> 2 ^ 24 \<Longrightarrow> f32 (real n) = Fin (real n)"
proof -
  assume n: "n \<le> 2 ^ 24"
  then have "real n \<le> 2 ^ 24" by (metis of_nat_le_iff of_nat_numeral of_nat_power)
  then have "\<bar>real n\<bar> \<le> 2 powi 24" by simp
  from f32_abs(1)[OF this] r32_nat[OF n] show ?thesis by simp
qed

lemma f32_0: "f32 0 = Fin 0" using f32_nat[of 0] by simp
lemma f32_1: "f32 1 = Fin 1" using f32_nat[of 1] by simp

lemma r32_at:
  assumes "2 powi e \<le> \<bar>x\<bar>" "\<bar>x\<bar> < 2 powi (e + 1)"
  shows "r32 x = of_int (rne (x / 2 powi (max e (- 126) - 23))) * 2 powi (max e (- 126) - 23)"
  using rnd_at[OF assms(1,2), of 24 "- 126"] by (simp add: r32_def)

lemma r64_at:
  assumes "2 powi e \<le> \<bar>x\<bar>" "\<bar>x\<bar> < 2 powi (e + 1)"
  shows "r64 x = of_int (rne (x / 2 powi (max e (- 1022) - 52))) * 2 powi (max e (- 1022) - 52)"
  using rnd_at[OF assms(1,2), of 53 "- 1022"] by (simp add: r64_def)

section \<open>Prediction before training\<close>

text \<open>
  Claim C3. On the model as the constructor leaves it (both dictionaries empty),
  \<open>predict\<close> and \<open>predict_proba\<close> raise, but \<open>estimate_class_posteriors\<close> does not:
  its guard compares the dictionaries with \<^verbatim>\<open>None\<close>, the empty dictionaries pass it,
  the loop runs zero times and the empty tensor is returned.
\<close>

theorem untrained_posteriors_returns:
  "estimate_class_posteriors NaiveBayes_init feature = Inr []
   \<and> predict NaiveBayes_init feature = Inl PyException
   \<and> predict_proba NaiveBayes_init feature = Inl PyException"
  by (simp add: estimate_class_posteriors_def predict_def predict_proba_def
      NaiveBayes_init_def py_not_def zeros_def)

section \<open>The vocabulary\<close>

lemma foldl_nested:
  "foldl (\<lambda>st e. foldl f st (g e)) s es = foldl f s (concat (map g es))"
  by (induction es arbitrary: s) simp_all

lemma update_fresh: "map_of V w = None \<Longrightarrow> AList.update w i V = V @ [(w, i)]"
  by (induction V) (auto split: if_splits)

lemma first_pos_old: "a \<in> set ts \<Longrightarrow> first_pos (ts @ us) a = first_pos ts a"
  unfolding first_pos_def by (induction ts) auto

lemma first_pos_less: "a \<in> set ts \<Longrightarrow> first_pos ts a < length ts"
  unfolding first_pos_def by (induction ts) auto

lemma first_pos_new: "w \<notin> set ts \<Longrightarrow> first_pos (ts @ [w]) w = length ts"
  unfolding first_pos_def by (induction ts) auto

lemma vocab_inv_step:
  assumes "vocab_inv ts st"
  shows "vocab_inv (ts @ [w]) (vocab_step st w)"
proof -
  obtain V i where st: "st = (V, i)" by (cases st)
  from assms st have i: "i = int (length V)"
    and snd: "map snd V = map int [0..<length V]"
    and dist: "distinct (map fst V)"
    and keys: "set (map fst V) = set ts"
    and ord: "\<And>a x b y. (a, x) \<in> set V \<Longrightarrow> (b, y) \<in> set V \<Longrightarrow>
                (x < y) = (first_pos ts a < first_pos ts b)"
    by (simp_all add: vocab_inv_def)
  have bound: "x < int (length V)" if "(a, x) \<in> set V" for a x
  proof -
    from that have "x \<in> set (map snd V)" by force
    then show ?thesis unfolding snd by auto
  qed
  have key: "a \<in> set ts" if "(a, x) \<in> set V" for a x
    using that keys by force
  show ?thesis
  proof (cases "map_of V w = None")
    case False
    then have "w \<in> set ts" using keys by (auto simp: map_of_eq_None_iff)
    then have same: "set (ts @ [w]) = set ts" by auto
    have "(x < y) = (first_pos (ts @ [w]) a < first_pos (ts @ [w]) b)"
      if "(a, x) \<in> set V" "(b, y) \<in> set V" for a x b y
      using ord[OF that] key[OF that(1)] key[OF that(2)] by (simp add: first_pos_old)
    moreover have "vocab_step st w = (V, i)"
      using False by (simp add: vocab_step_def st)
    ultimately show ?thesis
      using i snd dist keys same by (simp add: vocab_inv_def)
  next
    case True
    then have fresh: "w \<notin> set ts" using keys by (simp add: map_of_eq_None_iff)
    have step: "vocab_step st w = (V @ [(w, i)], i + 1)"
      using True by (simp add: vocab_step_def st update_fresh)
    have "(x < y) = (first_pos (ts @ [w]) a < first_pos (ts @ [w]) b)"
      if mem: "(a, x) \<in> set (V @ [(w, i)])" "(b, y) \<in> set (V @ [(w, i)])" for a x b y
    proof -
      consider "(a, x) \<in> set V" "(b, y) \<in> set V"
        | "(a, x) \<in> set V" "b = w" "y = i"
        | "a = w" "x = i" "(b, y) \<in> set V"
        | "a = w" "x = i" "b = w" "y = i"
        using mem by auto
      then show ?thesis
      proof cases
        case 1
        then show ?thesis
          using ord[OF 1] key[OF 1(1)] key[OF 1(2)] by (simp add: first_pos_old)
      next
        case 2
        then show ?thesis
          using bound[OF 2(1)] key[OF 2(1)] fresh i
          by (simp add: first_pos_old first_pos_new first_pos_less)
      next
        case 3
        then show ?thesis
          using bound[OF 3(3)] key[OF 3(3)] fresh i first_pos_less[of b ts]
          by (simp add: first_pos_old first_pos_new)
      next
        case 4
        then show ?thesis by simp
      qed
    qed
    with i snd dist keys fresh show ?thesis
      unfolding step vocab_inv_def by (simp add: map_of_eq_None_iff)
  qed
qed

lemma vocab_inv_foldl:
  "vocab_inv ts st \<Longrightarrow> vocab_inv (ts @ ws) (foldl vocab_step st ws)"
proof (induction ws arbitrary: ts st)
  case Nil
  then show ?case by simp
next
  case (Cons w ws)
  from Cons.IH[OF vocab_inv_step[OF Cons.prems, of w]] show ?case by simp
qed

lemma vocab_inv_build:
  "vocab_inv (concat (map words examples))
     (foldl (\<lambda>st example. foldl vocab_step st (words example)) ([], 0) examples)"
proof -
  have "vocab_inv [] ([], 0)" by (simp add: vocab_inv_def)
  from vocab_inv_foldl[OF this] show ?thesis by (simp add: foldl_nested)
qed

text \<open>
  Claim C7. For every list of examples, \<open>build_vocab\<close> gives every token of the
  examples exactly one entry; the indices, in the order of the dictionary, are
  \<open>0, 1, ..., size - 1\<close>, so they are unique and fill the dense range; and of two
  vocabulary words the one with the smaller index is the one that occurs first in
  the tokens of the examples read in order.
\<close>

theorem build_vocab_dense_first_seen:
  "distinct (map fst (build_vocab examples))
   \<and> set (map fst (build_vocab examples)) = set (concat (map words examples))
   \<and> map snd (build_vocab examples) = map int [0..<length (build_vocab examples)]
   \<and> (\<forall>(a, x) \<in> set (build_vocab examples). \<forall>(b, y) \<in> set (build_vocab examples).
         (x < y) = (first_pos (concat (map words examples)) a
                      < first_pos (concat (map words examples)) b))"
  using vocab_inv_build[of examples]
  unfolding build_vocab_def vocab_inv_def
  by (auto simp: case_prod_beta)

theorem build_vocab_dense_first_seen_witness:
  "build_vocab [\<lparr>words = [''good'', ''movie''], label = 1\<rparr>,
                \<lparr>words = [''bad'', ''movie''], label = 0\<rparr>]
     = [(''good'', 0), (''movie'', 1), (''bad'', 2)]
   \<and> first_pos [''good'', ''movie'', ''bad'', ''movie''] ''movie''
       < first_pos [''good'', ''movie'', ''bad'', ''movie''] ''bad''"
proof -
  let ?ex = "[\<lparr>words = [''good'', ''movie''], label = 1\<rparr>,
              \<lparr>words = [''bad'', ''movie''], label = 0\<rparr>]"
  have v: "build_vocab ?ex = [(''good'', 0), (''movie'', 1), (''bad'', 2)]"
    by (simp add: build_vocab_def vocab_step_def)
  have "\<forall>(a, x) \<in> set (build_vocab ?ex). \<forall>(b, y) \<in> set (build_vocab ?ex).
          (x < y) = (first_pos (concat (map words ?ex)) a
                       < first_pos (concat (map words ?ex)) b)"
    using build_vocab_dense_first_seen[of ?ex] by blast
  then have "((1::int) < 2) = (first_pos (concat (map words ?ex)) ''movie''
                                < first_pos (concat (map words ?ex)) ''bad'')"
    unfolding v by simp
  then show ?thesis using v by simp
qed

section \<open>Bag of words\<close>

lemma length_zeros: "length (zeros n) = n"
  by (simp add: zeros_def)

lemma tensor_index_bound: "tensor_index n idx = Inr j \<Longrightarrow> j < n"
  by (auto simp: tensor_index_def split: if_splits)

lemma bow_loop_length:
  "bow_loop T V b bow = Inr bow' \<Longrightarrow> length bow' = length bow"
proof (induction T arbitrary: bow)
  case Nil
  then show ?case by simp
next
  case (Cons w T)
  then show ?case
    by (cases b) (fastforce split: option.splits sum.splits)+
qed

lemma bow_loop_append:
  "bow_loop (T1 @ T2) V b bow =
     (case bow_loop T1 V b bow of Inl e \<Rightarrow> Inl e | Inr bow1 \<Rightarrow> bow_loop T2 V b bow1)"
  by (induction T1 arbitrary: bow) (auto split: option.splits sum.splits)

lemma bow_loop_filter:
  "bow_loop (filter (\<lambda>t. t \<in> fst ` set V) T) V b bow = bow_loop T V b bow"
proof (induction T arbitrary: bow)
  case Nil
  then show ?case by simp
next
  case (Cons w T)
  show ?case
  proof (cases "map_of V w")
    case None
    then have "w \<notin> fst ` set V" by (simp add: map_of_eq_None_iff)
    with None Cons.IH show ?thesis by simp
  next
    case (Some idx)
    then have "w \<in> fst ` set V" by (metis map_of_eq_None_iff option.distinct(1))
    with Some Cons.IH show ?thesis by (simp split: sum.splits)
  qed
qed

lemma bow_loop_binary_keeps:
  "bow_loop T V True bow = Inr bow' \<Longrightarrow> k < length bow \<Longrightarrow> bow ! k = Fin 1
     \<Longrightarrow> bow' ! k = Fin 1"
proof (induction T arbitrary: bow)
  case Nil
  then show ?case by simp
next
  case (Cons w T)
  show ?case
  proof (cases "map_of V w")
    case None
    with Cons show ?thesis by simp
  next
    case (Some idx)
    with Cons.prems obtain j where j: "tensor_index (length bow) idx = Inr j"
      and run: "bow_loop T V True (bow[j := Fin 1]) = Inr bow'"
      by (auto split: sum.splits)
    have "bow[j := Fin 1] ! k = Fin 1"
      using Cons.prems(2,3) by (cases "j = k") simp_all
    with Cons.IH[OF run] Cons.prems(2) show ?thesis by simp
  qed
qed

lemma bow_loop_binary_marks:
  "bow_loop T V True bow = Inr bow' \<Longrightarrow> w \<in> set T \<Longrightarrow> map_of V w = Some idx
     \<Longrightarrow> \<exists>j. tensor_index (length bow) idx = Inr j \<and> bow' ! j = Fin 1"
proof (induction T arbitrary: bow)
  case Nil
  then show ?case by simp
next
  case (Cons t T)
  show ?case
  proof (cases "map_of V t")
    case None
    with Cons.prems have "t \<noteq> w" by auto
    with Cons None show ?thesis by simp
  next
    case (Some i)
    with Cons.prems obtain j where j: "tensor_index (length bow) i = Inr j"
      and run: "bow_loop T V True (bow[j := Fin 1]) = Inr bow'"
      by (auto split: sum.splits)
    show ?thesis
    proof (cases "t = w")
      case True
      with Some Cons.prems(3) have "i = idx" by simp
      moreover have "bow' ! j = Fin 1"
        using bow_loop_binary_keeps[OF run, of j] tensor_index_bound[OF j] by simp
      ultimately show ?thesis using j by simp
    next
      case False
      with Cons.prems(2) have "w \<in> set T" by simp
      from Cons.IH[OF run this Cons.prems(3)] show ?thesis by simp
    qed
  qed
qed

lemma bow_loop_binary_fixed:
  "(\<And>w idx. w \<in> set T \<Longrightarrow> map_of V w = Some idx
      \<Longrightarrow> \<exists>j. tensor_index (length bow) idx = Inr j \<and> bow ! j = Fin 1)
   \<Longrightarrow> bow_loop T V True bow = Inr bow"
proof (induction T)
  case Nil
  then show ?case by simp
next
  case (Cons t T)
  have rest: "bow_loop T V True bow = Inr bow"
    using Cons.prems by (intro Cons.IH) auto
  show ?case
  proof (cases "map_of V t")
    case None
    with rest show ?thesis by simp
  next
    case (Some i)
    from Cons.prems[OF _ Some] obtain j where
      j: "tensor_index (length bow) i = Inr j" and m: "bow ! j = Fin 1" by auto
    have "bow[j := Fin 1] = bow" using m by (metis list_update_id)
    with Some j rest show ?thesis by simp
  qed
qed

lemma bag_of_words_twice_binary:
  "bag_of_words (T @ T) V True = bag_of_words T V True"
proof (cases "bow_loop T V True (zeros (length V))")
  case (Inl e)
  then show ?thesis by (simp add: bag_of_words_def bow_loop_append)
next
  case (Inr b1)
  have len: "length b1 = length V"
    using bow_loop_length[OF Inr] by (simp add: length_zeros)
  have "bow_loop T V True b1 = Inr b1"
  proof (rule bow_loop_binary_fixed)
    fix w idx assume "w \<in> set T" "map_of V w = Some idx"
    from bow_loop_binary_marks[OF Inr this]
    show "\<exists>j. tensor_index (length b1) idx = Inr j \<and> b1 ! j = Fin 1"
      by (simp add: len length_zeros)
  qed
  with Inr show ?thesis by (simp add: bag_of_words_def bow_loop_append)
qed

lemma vocab_wf_index:
  assumes "vocab_wf V" "(w, i) \<in> set V"
  shows "0 \<le> i" "i < int (length V)" "map_of V w = Some i"
proof -
  from assms have "i \<in> set (map snd V)" by force
  with assms(1) have "i \<in> set (map int [0..<length V])" by (simp add: vocab_wf_def)
  then show "0 \<le> i" "i < int (length V)" by auto
  from assms show "map_of V w = Some i" by (simp add: vocab_wf_def)
qed

lemma vocab_wf_surj:
  assumes "vocab_wf V" "j < length V"
  shows "\<exists>w. (w, int j) \<in> set V"
proof -
  from assms have "int j \<in> set (map snd V)" by (simp add: vocab_wf_def)
  then show ?thesis by auto
qed

lemma vocab_wf_inj:
  assumes "vocab_wf V" "(w, i) \<in> set V" "(w', i) \<in> set V"
  shows "w = w'"
proof -
  from assms(1) have "distinct (map snd V)" by (simp add: vocab_wf_def)
  then have "inj_on snd (set V)" by (simp add: distinct_map)
  from inj_onD[OF this _ assms(2,3)] show ?thesis by simp
qed

lemma count_incr:
  assumes "n \<le> 16777216"
  shows "fadd (Fin (real n)) (Fin 1) = Fin (real (min (n + 1) 16777216))"
proof (cases "n = 16777216")
  case True
  have "r32 16777217 = 16777216"
    by (subst r32_at[of 24]) (simp_all add: rne_def)
  moreover have "f32 16777217 = Fin (r32 16777217)"
    by (rule f32_abs(1)[of _ 25]) simp_all
  ultimately show ?thesis using True by simp
next
  case False
  with assms have "n + 1 \<le> 2 ^ 24" by simp
  from f32_nat[OF this] have "f32 (real n + 1) = Fin (real n + 1)"
    by (simp add: add.commute)
  moreover have "min (n + 1) 16777216 = n + 1" using assms False by simp
  ultimately show ?thesis by simp
qed

lemma bow_loop_entries:
  assumes wf: "vocab_wf V" and len: "length ks = length V"
    and small: "\<forall>k \<in> set ks. k \<le> 16777216"
  shows "\<exists>bow'. bow_loop T V binary (map (\<lambda>k. Fin (real k)) ks) = Inr bow'
           \<and> length bow' = length V
           \<and> (\<forall>(w, i) \<in> set V. bow' ! nat i =
                 (if binary then (if w \<in> set T then Fin 1 else Fin (real (ks ! nat i)))
                  else Fin (real (min (ks ! nat i + count_list T w) 16777216))))"
  using len small
proof (induction T arbitrary: ks)
  case Nil
  have "ks ! nat i \<le> 16777216" if "(w, i) \<in> set V" for w i
  proof -
    have "nat i < length ks" using vocab_wf_index(1,2)[OF wf that] Nil.prems(1) by simp
    with Nil.prems(2) show ?thesis by (simp add: all_set_conv_all_nth)
  qed
  moreover have "nat i < length ks" if "(w, i) \<in> set V" for w i
    using vocab_wf_index(1,2)[OF wf that] Nil.prems(1) by simp
  ultimately show ?case using Nil.prems(1) by (auto simp: min_def)
next
  case (Cons t T)
  let ?bow = "map (\<lambda>k. Fin (real k)) ks"
  have inr: "nat i < length ks" if "(w, i) \<in> set V" for w i
    using vocab_wf_index(1,2)[OF wf that] Cons.prems(1) by simp
  have sm: "ks ! j \<le> 16777216" if "j < length ks" for j
    using Cons.prems(2) that by (simp add: all_set_conv_all_nth)
  show ?case
  proof (cases "map_of V t")
    case None
    then have nk: "t \<notin> fst ` set V" by (simp add: map_of_eq_None_iff)
    from Cons.IH[OF Cons.prems] obtain bow' where
      run: "bow_loop T V binary ?bow = Inr bow'" and l: "length bow' = length V"
      and ent: "\<And>w i. (w, i) \<in> set V \<Longrightarrow> bow' ! nat i =
                 (if binary then (if w \<in> set T then Fin 1 else Fin (real (ks ! nat i)))
                  else Fin (real (min (ks ! nat i + count_list T w) 16777216)))"
      by fastforce
    have "bow' ! nat i =
            (if binary then (if w \<in> set (t # T) then Fin 1 else Fin (real (ks ! nat i)))
             else Fin (real (min (ks ! nat i + count_list (t # T) w) 16777216)))"
      if m: "(w, i) \<in> set V" for w i
    proof -
      have "w \<noteq> t" using m nk by force
      with ent[OF m] show ?thesis by simp
    qed
    with None run l show ?thesis by auto
  next
    case (Some idx)
    then have mem: "(t, idx) \<in> set V" by (rule map_of_SomeD)
    have idx: "0 \<le> idx" "idx < int (length V)"
      using vocab_wf_index[OF wf mem] by simp_all
    let ?j = "nat idx"
    have j: "?j < length ks" using idx Cons.prems(1) by simp
    have ti: "tensor_index (length ?bow) idx = Inr ?j"
      using idx Cons.prems(1) by (simp add: tensor_index_def)
    let ?ks1 = "if binary then ks[?j := 1] else ks[?j := min (ks ! ?j + 1) 16777216]"
    have upd: "(if binary then ?bow[?j := Fin 1] else ?bow[?j := fadd (?bow ! ?j) (Fin 1)])
                 = map (\<lambda>k. Fin (real k)) ?ks1"
      using j count_incr[OF sm[OF j]] by (simp add: map_update)
    have step: "bow_loop (t # T) V binary ?bow = bow_loop T V binary (map (\<lambda>k. Fin (real k)) ?ks1)"
      using Some ti upd by simp
    have l1: "length ?ks1 = length V" using Cons.prems(1) by simp
    have s1: "\<forall>k \<in> set ?ks1. k \<le> 16777216"
    proof
      fix k assume "k \<in> set ?ks1"
      then have "k \<in> insert (if binary then 1 else min (ks ! ?j + 1) 16777216) (set ks)"
        using set_update_subset_insert[of ks ?j] by (auto split: if_splits)
      with Cons.prems(2) show "k \<le> 16777216" by (auto split: if_splits)
    qed
    from Cons.IH[OF l1 s1] obtain bow' where
      run: "bow_loop T V binary (map (\<lambda>k. Fin (real k)) ?ks1) = Inr bow'"
      and l: "length bow' = length V"
      and ent: "\<And>w i. (w, i) \<in> set V \<Longrightarrow> bow' ! nat i =
                 (if binary then (if w \<in> set T then Fin 1 else Fin (real (?ks1 ! nat i)))
                  else Fin (real (min (?ks1 ! nat i + count_list T w) 16777216)))"
      by fastforce
    have "bow' ! nat i =
            (if binary then (if w \<in> set (t # T) then Fin 1 else Fin (real (ks ! nat i)))
             else Fin (real (min (ks ! nat i + count_list (t # T) w) 16777216)))"
      if m: "(w, i) \<in> set V" for w i
    proof (cases "w = t")
      case True
      have "i = idx"
        using vocab_wf_index(3)[OF wf m] vocab_wf_index(3)[OF wf mem] True by simp
      with True ent[OF m] j show ?thesis by (auto simp: min_def)
    next
      case False
      have "i \<noteq> idx" using vocab_wf_inj[OF wf m] mem False by auto
      moreover have "0 \<le> i" using vocab_wf_index(1)[OF wf m] .
      ultimately have "nat i \<noteq> ?j" using idx by simp
      with False ent[OF m] show ?thesis by simp
    qed
    with run l show ?thesis unfolding step by auto
  qed
qed

lemma bag_of_words_aux:
  assumes "vocab_wf V"
  shows "\<exists>bow. bag_of_words T V binary = Inr bow \<and> length bow = length V
           \<and> (\<forall>(w, i) \<in> set V. bow ! nat i =
                 (if binary then (if w \<in> set T then Fin 1 else Fin 0)
                  else Fin (real (min (count_list T w) 16777216))))"
proof -
  let ?ks = "replicate (length V) (0::nat)"
  have z: "zeros (length V) = map (\<lambda>k. Fin (real k)) ?ks" by (simp add: zeros_def)
  from bow_loop_entries[OF assms, of ?ks T binary] obtain bow where
    run: "bow_loop T V binary (zeros (length V)) = Inr bow" and l: "length bow = length V"
    and ent: "\<And>w i. (w, i) \<in> set V \<Longrightarrow> bow ! nat i =
                 (if binary then (if w \<in> set T then Fin 1 else Fin (real (?ks ! nat i)))
                  else Fin (real (min (?ks ! nat i + count_list T w) 16777216)))"
    unfolding z by fastforce
  have "bow ! nat i =
          (if binary then (if w \<in> set T then Fin 1 else Fin 0)
           else Fin (real (min (count_list T w) 16777216)))"
    if m: "(w, i) \<in> set V" for w i
  proof -
    have "nat i < length V" using vocab_wf_index(1,2)[OF assms m] by simp
    then have "?ks ! nat i = 0" by simp
    with ent[OF m] show ?thesis by simp
  qed
  with run l show ?thesis by (auto simp: bag_of_words_def)
qed

lemma list1: "length xs = 1 \<Longrightarrow> xs = [xs ! 0]"
  by (cases xs) auto

lemma list3: "length xs = 3 \<Longrightarrow> xs = [xs ! 0, xs ! 1, xs ! 2]"
proof (cases xs)
  case Nil
  assume "length xs = 3"
  with Nil show ?thesis by simp
next
  case (Cons a as)
  assume "length xs = 3"
  with Cons show ?thesis
    by (cases as; cases "tl as") (auto simp: numeral_2_eq_2)
qed

lemma count_list_replicate: "count_list (replicate n x) x = n"
  by (induction n) simp_all

lemma single_word_vocab: "vocab_wf [(''a'', 0)]"
  by (simp add: vocab_wf_def)

lemma single_word_count:
  "bag_of_words T [(''a'', 0)] False = Inr [Fin (real (min (count_list T ''a'') 16777216))]"
proof -
  from bag_of_words_aux[OF single_word_vocab, of T False] obtain bow where
    b: "bag_of_words T [(''a'', 0)] False = Inr bow" "length bow = 1"
       "bow ! 0 = Fin (real (min (count_list T ''a'') 16777216))"
    by auto
  from list1[OF b(2)] b(1,3) show ?thesis by simp
qed

text \<open>
  Claim C6, as amended. For a vocabulary that satisfies its invariant and every token
  sequence, \<open>bag_of_words\<close> returns (it does not raise) a vector as long as the
  vocabulary; the entry at the index of a vocabulary word is, in binary mode, 1 when
  the word occurs among the tokens and 0 otherwise, and in count mode the number of
  its occurrences as long as that number is at most \<open>2^24 = 16777216\<close>, and
  \<open>16777216\<close> beyond (a single-precision count stops growing there); in binary mode
  every entry is 0 or 1; and the tokens outside the vocabulary change nothing: without
  them the result is the same vector.
\<close>

theorem bag_of_words_entries:
  assumes "vocab_wf V"
  shows "\<exists>bow. bag_of_words T V binary = Inr bow \<and> length bow = length V
           \<and> (\<forall>(w, i) \<in> set V. bow ! nat i =
                 (if binary then (if w \<in> set T then Fin 1 else Fin 0)
                  else Fin (real (min (count_list T w) 16777216))))
           \<and> (binary \<longrightarrow> set bow \<subseteq> {Fin 0, Fin 1})
           \<and> bag_of_words (filter (\<lambda>t. t \<in> fst ` set V) T) V binary = Inr bow"
proof -
  from bag_of_words_aux[OF assms, of T binary] obtain bow where
    run: "bag_of_words T V binary = Inr bow" and l: "length bow = length V"
    and entries: "\<And>w i. (w, i) \<in> set V \<Longrightarrow> bow ! nat i =
                 (if binary then (if w \<in> set T then Fin 1 else Fin 0)
                  else Fin (real (min (count_list T w) 16777216)))"
    by fastforce
  have "x = Fin 0 \<or> x = Fin 1" if b: binary and x: "x \<in> set bow" for x
  proof -
    from x obtain j where j: "j < length bow" "x = bow ! j"
      by (auto simp: in_set_conv_nth)
    with l vocab_wf_surj[OF assms, of j] obtain w where "(w, int j) \<in> set V" by auto
    from entries[OF this] b j show ?thesis by simp
  qed
  then have "binary \<longrightarrow> set bow \<subseteq> {Fin 0, Fin 1}" by auto
  moreover have "bag_of_words (filter (\<lambda>t. t \<in> fst ` set V) T) V binary = Inr bow"
    using run by (simp add: bag_of_words_def bow_loop_filter)
  ultimately show ?thesis using run l entries by auto
qed

theorem bag_of_words_entries_witness:
  "vocab_wf [(''good'', 0), (''movie'', 1), (''bad'', 2)]
   \<and> bag_of_words [''good'', ''movie'', ''fine'', ''movie'']
         [(''good'', 0), (''movie'', 1), (''bad'', 2)] False = Inr [Fin 1, Fin 2, Fin 0]
   \<and> bag_of_words [''good'', ''movie'', ''fine'', ''movie'']
         [(''good'', 0), (''movie'', 1), (''bad'', 2)] True = Inr [Fin 1, Fin 1, Fin 0]"
proof -
  let ?V = "[(''good'', 0), (''movie'', 1), (''bad'', 2)] :: vocabulary"
  let ?T = "[''good'', ''movie'', ''fine'', ''movie'']"
  have wf: "vocab_wf ?V" by (simp add: vocab_wf_def upt_rec)
  from bag_of_words_entries[OF wf, of ?T False] obtain c where
    c: "bag_of_words ?T ?V False = Inr c" "length c = 3"
       "c ! 0 = Fin 1" "c ! 1 = Fin 2" "c ! 2 = Fin 0"
    by auto
  from bag_of_words_entries[OF wf, of ?T True] obtain b where
    b: "bag_of_words ?T ?V True = Inr b" "length b = 3"
       "b ! 0 = Fin 1" "b ! 1 = Fin 1" "b ! 2 = Fin 0"
    by auto
  from list3[OF c(2)] c(3-5) have "c = [Fin 1, Fin 2, Fin 0]" by simp
  moreover from list3[OF b(2)] b(3-5) have "b = [Fin 1, Fin 1, Fin 0]" by simp
  ultimately show ?thesis using wf c(1) b(1) by simp
qed

text \<open>
  The claim C6 as stated (the entry equals the number of occurrences, whatever the
  token sequence) fails: on 16777217 occurrences of the only word of the vocabulary,
  the entry is 16777216.
\<close>

theorem bag_of_words_count_saturates:
  "vocab_wf [(''a'', 0)]
   \<and> count_list (replicate 16777217 ''a'') ''a'' = 16777217
   \<and> bag_of_words (replicate 16777217 ''a'') [(''a'', 0)] False = Inr [Fin 16777216]"
  by (simp add: single_word_vocab single_word_count count_list_replicate)

text \<open>
  Claim C10, as amended. For a vocabulary that satisfies its invariant and token
  sequences in whose concatenation no vocabulary word occurs more than \<open>2^24\<close> times,
  the count-mode vector of the concatenation is the element-wise (single-precision) sum
  of the vectors of the two parts. For every vocabulary and every token sequence, the
  binary-mode vector of the sequence followed by itself is the binary-mode vector of
  the sequence.
\<close>

theorem bag_of_words_concat:
  "(vocab_wf V \<and> (\<forall>(w, i) \<in> set V. count_list (T1 @ T2) w \<le> 16777216)
      \<longrightarrow> (\<exists>b1 b2. bag_of_words T1 V False = Inr b1 \<and> bag_of_words T2 V False = Inr b2
                  \<and> bag_of_words (T1 @ T2) V False = Inr (tadd b1 b2)))
   \<and> bag_of_words (T1 @ T1) V True = bag_of_words T1 V True"
proof (intro conjI impI)
  show "bag_of_words (T1 @ T1) V True = bag_of_words T1 V True"
    by (rule bag_of_words_twice_binary)
next
  assume h: "vocab_wf V \<and> (\<forall>(w, i) \<in> set V. count_list (T1 @ T2) w \<le> 16777216)"
  then have wf: "vocab_wf V"
    and small: "\<And>w i. (w, i) \<in> set V \<Longrightarrow> count_list T1 w + count_list T2 w \<le> 16777216"
    by auto
  from bag_of_words_aux[OF wf, of T1 False] obtain b1 where
    b1: "bag_of_words T1 V False = Inr b1" "length b1 = length V"
    and e1: "\<And>w i. (w, i) \<in> set V \<Longrightarrow> b1 ! nat i = Fin (real (min (count_list T1 w) 16777216))"
    by fastforce
  from bag_of_words_aux[OF wf, of T2 False] obtain b2 where
    b2: "bag_of_words T2 V False = Inr b2" "length b2 = length V"
    and e2: "\<And>w i. (w, i) \<in> set V \<Longrightarrow> b2 ! nat i = Fin (real (min (count_list T2 w) 16777216))"
    by fastforce
  from bag_of_words_aux[OF wf, of "T1 @ T2" False] obtain b where
    b: "bag_of_words (T1 @ T2) V False = Inr b" "length b = length V"
    and e: "\<And>w i. (w, i) \<in> set V \<Longrightarrow>
              b ! nat i = Fin (real (min (count_list (T1 @ T2) w) 16777216))"
    by fastforce
  have "b = tadd b1 b2"
  proof (rule nth_equalityI)
    show "length b = length (tadd b1 b2)" using b(2) b1(2) b2(2) by (simp add: tadd_def)
  next
    fix j assume "j < length b"
    then have j: "j < length V" using b(2) by simp
    from vocab_wf_surj[OF wf j] obtain w where m: "(w, int j) \<in> set V" by blast
    have s: "count_list T1 w + count_list T2 w \<le> 2 ^ 24" using small[OF m] by simp
    have "tadd b1 b2 ! j = fadd (b1 ! j) (b2 ! j)"
      using j b1(2) b2(2) by (simp add: tadd_def)
    also have "\<dots> = f32 (real (count_list T1 w + count_list T2 w))"
      using e1[OF m] e2[OF m] small[OF m] by (simp add: min_def)
    also have "\<dots> = Fin (real (count_list T1 w + count_list T2 w))"
      by (rule f32_nat[OF s])
    finally show "b ! j = tadd b1 b2 ! j"
      using e[OF m] small[OF m] by (simp add: min_def)
  qed
  with b1(1) b2(1) b(1)
  show "\<exists>b1 b2. bag_of_words T1 V False = Inr b1 \<and> bag_of_words T2 V False = Inr b2
                  \<and> bag_of_words (T1 @ T2) V False = Inr (tadd b1 b2)"
    by auto
qed

theorem bag_of_words_concat_witness:
  "vocab_wf [(''good'', 0), (''movie'', 1), (''bad'', 2)]
   \<and> bag_of_words ([''good'', ''movie''] @ [''movie'', ''bad''])
       [(''good'', 0), (''movie'', 1), (''bad'', 2)] False
     = Inr (tadd [Fin 1, Fin 1, Fin 0] [Fin 0, Fin 1, Fin 1])"
proof -
  let ?V = "[(''good'', 0), (''movie'', 1), (''bad'', 2)] :: vocabulary"
  let ?T1 = "[''good'', ''movie'']" and ?T2 = "[''movie'', ''bad'']"
  have wf: "vocab_wf ?V" by (simp add: vocab_wf_def upt_rec)
  have small: "\<forall>(w, i) \<in> set ?V. count_list (?T1 @ ?T2) w \<le> 16777216" by simp
  have b1: "bag_of_words ?T1 ?V False = Inr [Fin 1, Fin 1, Fin 0]"
    by (simp add: bag_of_words_def zeros_def tensor_index_def numeral_3_eq_3 f32_1)
  have b2: "bag_of_words ?T2 ?V False = Inr [Fin 0, Fin 1, Fin 1]"
    by (simp add: bag_of_words_def zeros_def tensor_index_def numeral_3_eq_3 numeral_2_eq_2 f32_1)
  from bag_of_words_concat[of ?V ?T1 ?T2] wf small obtain c1 c2 where
    "bag_of_words ?T1 ?V False = Inr c1" "bag_of_words ?T2 ?V False = Inr c2"
    "bag_of_words (?T1 @ ?T2) ?V False = Inr (tadd c1 c2)"
    by blast
  with b1 b2 wf show ?thesis by simp
qed

text \<open>
  The claim C10 as stated (for all token sequences) fails in count mode: 16777216
  occurrences of a word followed by two more give the count 16777216, while the sum
  of the two vectors is 16777218.
\<close>

theorem bag_of_words_concat_not_additive:
  "bag_of_words (replicate 16777216 ''a'' @ [''a'', ''a'']) [(''a'', 0)] False
     = Inr [Fin 16777216]
   \<and> bag_of_words (replicate 16777216 ''a'') [(''a'', 0)] False = Inr [Fin 16777216]
   \<and> bag_of_words [''a'', ''a''] [(''a'', 0)] False = Inr [Fin 2]
   \<and> tadd [Fin 16777216] [Fin 2] = [Fin 16777218]"
proof -
  have "f32 (real (16777218::nat)) = Fin (real (16777218::nat))"
  proof -
    have "r32 (real (8388609::nat) * 2 powi 1) = real (8388609::nat) * 2 powi 1"
      unfolding r32_def by (rule rnd_nat_exact) simp_all
    then have "r32 16777218 = 16777218" by simp
    moreover have "f32 16777218 = Fin (r32 16777218)"
      by (rule f32_abs(1)[of _ 25]) simp_all
    ultimately show ?thesis by simp
  qed
  then have "tadd [Fin 16777216] [Fin 2] = [Fin 16777218]"
    by (simp add: tadd_def)
  then show ?thesis
    by (simp add: single_word_count count_list_replicate)
qed

section \<open>Class priors\<close>

lemma counter_add_map_of:
  "map_of (counter_add cs x) =
     (map_of cs)(x \<mapsto> (case map_of cs x of None \<Rightarrow> 1 | Some c \<Rightarrow> c + 1))"
  by (simp add: counter_add_def update_conv')

lemma counter_add_keys:
  "fst ` set (counter_add cs x) = insert x (fst ` set cs)"
proof -
  have "fst ` set (AList.update k v al) = insert k (fst ` set al)"
    for k :: int and v :: nat and al
    by (induction al) auto
  then show ?thesis by (simp add: counter_add_def)
qed

lemma counter_add_distinct:
  "distinct (map fst cs) \<Longrightarrow> distinct (map fst (counter_add cs x))"
  by (simp add: counter_add_def distinct_update)

lemma update_sum:
  "sum_list (map snd (AList.update x (case map_of cs x of None \<Rightarrow> 1 | Some c \<Rightarrow> c + 1) cs))
     = sum_list (map snd cs) + (1::nat)"
  by (induction cs) auto

lemma counter_add_sum:
  "sum_list (map snd (counter_add cs x)) = sum_list (map snd cs) + 1"
  unfolding counter_add_def by (rule update_sum)

lemma counter_foldl:
  "distinct (map fst cs) \<Longrightarrow>
     distinct (map fst (foldl counter_add cs xs))
     \<and> set (map fst (foldl counter_add cs xs)) = set (map fst cs) \<union> set xs
     \<and> sum_list (map snd (foldl counter_add cs xs)) = sum_list (map snd cs) + length xs
     \<and> (\<forall>k. map_of (foldl counter_add cs xs) k =
            (if k \<in> set xs
             then Some ((case map_of cs k of None \<Rightarrow> 0 | Some c \<Rightarrow> c) + count_list xs k)
             else map_of cs k))"
proof (induction xs arbitrary: cs)
  case Nil
  then show ?case by simp
next
  case (Cons x xs)
  let ?cs = "counter_add cs x"
  from Cons.IH[OF counter_add_distinct[OF Cons.prems, of x]]
  have d: "distinct (map fst (foldl counter_add ?cs xs))"
    and k: "set (map fst (foldl counter_add ?cs xs)) = set (map fst ?cs) \<union> set xs"
    and s: "sum_list (map snd (foldl counter_add ?cs xs)) = sum_list (map snd ?cs) + length xs"
    and m: "\<And>k. map_of (foldl counter_add ?cs xs) k =
            (if k \<in> set xs
             then Some ((case map_of ?cs k of None \<Rightarrow> 0 | Some c \<Rightarrow> c) + count_list xs k)
             else map_of ?cs k)"
    by blast+
  have "map_of (foldl counter_add ?cs xs) k =
            (if k \<in> set (x # xs)
             then Some ((case map_of cs k of None \<Rightarrow> 0 | Some c \<Rightarrow> c) + count_list (x # xs) k)
             else map_of cs k)" for k
    unfolding m[of k]
    by (auto simp: counter_add_map_of count_list_0_iff split: option.splits)
  with d k s show ?case
    by (simp add: counter_add_keys counter_add_sum)
qed

lemma Counter_props:
  "distinct (map fst (Counter xs))"
  "set (map fst (Counter xs)) = set xs"
  "sum_list (map snd (Counter xs)) = length xs"
  "map_of (Counter xs) k = (if k \<in> set xs then Some (count_list xs k) else None)"
  using counter_foldl[of "[]" xs] by (simp_all add: Counter_def)

lemma priors_keys: "map fst (estimate_class_priors labels) = map fst (Counter labels)"
  by (simp add: estimate_class_priors_def case_prod_beta)

lemma Counter_entry:
  assumes "(c, n) \<in> set (Counter xs)"
  shows "c \<in> set xs" and "n = count_list xs c" and "n \<le> length xs" and "0 < n"
proof -
  from map_of_is_SomeI[OF Counter_props(1) assms]
  have m: "map_of (Counter xs) c = Some n" .
  then show c: "c \<in> set xs" and n: "n = count_list xs c"
    by (simp_all add: Counter_props(4) split: if_splits)
  show "n \<le> length xs" unfolding n by (rule count_le_length)
  from c have "count_list xs c \<noteq> 0" by (simp only: count_list_0_iff not_not)
  then show "0 < n" unfolding n by simp
qed

lemma unit_f64:
  assumes "0 \<le> y" "y \<le> 1"
  shows "f64 y = Fin (r64 y)" and "0 \<le> r64 y" and "r64 y \<le> 1"
    and "\<bar>r64 y - y\<bar> \<le> 1 / 2 ^ 53"
proof -
  have a: "\<bar>y\<bar> \<le> 2 powi 0" using assms by simp
  from f64_abs[OF a] show "f64 y = Fin (r64 y)" and "r64 y \<le> 1" by simp_all
  show "0 \<le> r64 y" unfolding r64_def by (rule rnd_nonneg[OF assms(1)])
  have "\<bar>y\<bar> \<le> 1" using assms by simp
  from rnd_error_bound[OF this, of "- 1022" 53]
  show "\<bar>r64 y - y\<bar> \<le> 1 / 2 ^ 53"
    by (simp add: r64_def power_int_minus_divide)
qed

lemma unit_f32:
  assumes "0 \<le> y" "y \<le> 1"
  shows "f32 y = Fin (r32 y)" and "0 \<le> r32 y" and "r32 y \<le> 1"
    and "\<bar>r32 y - y\<bar> \<le> 1 / 2 ^ 24"
proof -
  have a: "\<bar>y\<bar> \<le> 2 powi 0" using assms by simp
  from f32_abs[OF a] show "f32 y = Fin (r32 y)" and "r32 y \<le> 1" by simp_all
  show "0 \<le> r32 y" unfolding r32_def by (rule rnd_nonneg[OF assms(1)])
  have "\<bar>y\<bar> \<le> 1" using assms by simp
  from rnd_error_bound[OF this, of "- 126" 24]
  show "\<bar>r32 y - y\<bar> \<le> 1 / 2 ^ 24"
    by (simp add: r32_def power_int_minus_divide)
qed

lemma prior_value:
  assumes "n \<le> N"
  shows "to_f32 (py_int_div n N) = Fin (r32 (r64 (real n / real N)))"
    and "0 \<le> r32 (r64 (real n / real N))" and "r32 (r64 (real n / real N)) \<le> 1"
    and "\<bar>r32 (r64 (real n / real N)) - real n / real N\<bar> \<le> 1 / 2 ^ 23"
proof -
  let ?y = "real n / real N"
  have y: "0 \<le> ?y" "?y \<le> 1" using assms by (cases "N = 0", simp_all)+
  note d = unit_f64[OF y]
  note s = unit_f32[OF d(2,3)]
  show "to_f32 (py_int_div n N) = Fin (r32 (r64 ?y))"
    by (simp add: py_int_div_def d(1) s(1))
  show "0 \<le> r32 (r64 ?y)" "r32 (r64 ?y) \<le> 1" by (rule s(2), rule s(3))
  have "(1::real) / 2 ^ 24 + 1 / 2 ^ 53 \<le> 1 / 2 ^ 23" by simp
  with d(4) s(4) show "\<bar>r32 (r64 ?y) - ?y\<bar> \<le> 1 / 2 ^ 23" by linarith
qed

lemma priors_list:
  "estimate_class_priors labels =
     map (\<lambda>e. (fst e, Fin (r32 (r64 (real (snd e) / real (length labels)))))) (Counter labels)"
proof -
  have "to_f32 (py_int_div (snd e) (length labels))
          = Fin (r32 (r64 (real (snd e) / real (length labels))))"
    if "e \<in> set (Counter labels)" for e
  proof -
    obtain c n where e: "e = (c, n)" by (cases e)
    from Counter_entry(3)[of c n labels] that e have "n \<le> length labels" by simp
    from prior_value(1)[OF this] show ?thesis by (simp add: e)
  qed
  then show ?thesis
    by (simp add: estimate_class_priors_def case_prod_beta)
qed

lemma priors_map_of:
  "map_of (estimate_class_priors labels) k =
     (if k \<in> set labels
      then Some (Fin (r32 (r64 (real (count_list labels k) / real (length labels)))))
      else None)"
proof -
  have h: "map_of (map (\<lambda>e. (fst e, f (snd e))) cs) k = map_option f (map_of cs k)"
    for f :: "nat \<Rightarrow> scalar" and cs :: "(int \<times> nat) list"
    by (induction cs) auto
  show ?thesis
    unfolding priors_list
    by (simp add: h[of "\<lambda>n. Fin (r32 (r64 (real n / real (length labels))))"]
        Counter_props(4))
qed

lemma sum_list_error:
  assumes "\<forall>e \<in> set es. \<bar>f e - g e\<bar> \<le> (d::real)"
  shows "\<bar>sum_list (map f es) - sum_list (map g es)\<bar> \<le> real (length es) * d"
  using assms
proof (induction es)
  case Nil
  then show ?case by simp
next
  case (Cons e es)
  then have "\<bar>f e - g e\<bar> \<le> d"
    and "\<bar>sum_list (map f es) - sum_list (map g es)\<bar> \<le> real (length es) * d"
    by simp_all
  then show ?case by (simp add: algebra_simps)
qed

text \<open>
  Claim C5, as amended. For every non-empty label sequence, the class priors hold one
  entry for each distinct label and for no other key; the entry of a label is the
  number of examples with that label divided by the number of examples, the quotient
  being rounded to double and then to single precision, and so within \<open>2^-23\<close> of the
  exact quotient; and the priors sum to 1 within \<open>k * 2^-23\<close>, where \<open>k\<close> is the
  number of classes.
\<close>

theorem estimate_class_priors_spec:
  assumes "labels \<noteq> []"
  shows "distinct (map fst (estimate_class_priors labels))
         \<and> set (map fst (estimate_class_priors labels)) = set labels
         \<and> (\<forall>c \<in> set labels.
               map_of (estimate_class_priors labels) c =
                 Some (Fin (r32 (r64 (real (count_list labels c) / real (length labels)))))
               \<and> \<bar>r32 (r64 (real (count_list labels c) / real (length labels)))
                    - real (count_list labels c) / real (length labels)\<bar> \<le> 1 / 2 ^ 23)
         \<and> (\<exists>ps. map snd (estimate_class_priors labels) = map Fin ps
                \<and> \<bar>sum_list ps - 1\<bar> \<le> real (length ps) / 2 ^ 23)"
proof -
  let ?N = "length labels"
  let ?f = "\<lambda>e :: int \<times> nat. r32 (r64 (real (snd e) / real ?N))"
  let ?g = "\<lambda>e :: int \<times> nat. real (snd e) / real ?N"
  let ?ps = "map ?f (Counter labels)"
  have vals: "map snd (estimate_class_priors labels) = map Fin ?ps"
    by (simp add: priors_list)
  have "\<forall>e \<in> set (Counter labels). \<bar>?f e - ?g e\<bar> \<le> 1 / 2 ^ 23"
  proof
    fix e assume e: "e \<in> set (Counter labels)"
    obtain c n where ce: "e = (c, n)" by (cases e)
    from Counter_entry(3)[of c n labels] e ce have "n \<le> ?N" by simp
    from prior_value(4)[OF this] show "\<bar>?f e - ?g e\<bar> \<le> 1 / 2 ^ 23" by (simp add: ce)
  qed
  from sum_list_error[OF this]
  have err: "\<bar>sum_list ?ps - sum_list (map ?g (Counter labels))\<bar>
               \<le> real (length (Counter labels)) * (1 / 2 ^ 23)" .
  have "sum_list (map ?g (Counter labels))
          = real (sum_list (map snd (Counter labels))) / real ?N"
  proof -
    have "sum_list (map (\<lambda>p. real (snd p) / n) cs) = real (sum_list (map snd cs)) / n"
      for n and cs :: "(int \<times> nat) list"
      by (induction cs) (simp_all add: add_divide_distrib)
    then show ?thesis .
  qed
  also have "\<dots> = 1" using assms by (simp add: Counter_props(3))
  finally have "\<bar>sum_list ?ps - 1\<bar> \<le> real (length ?ps) / 2 ^ 23" using err by simp
  with vals have sum: "\<exists>ps. map snd (estimate_class_priors labels) = map Fin ps
                \<and> \<bar>sum_list ps - 1\<bar> \<le> real (length ps) / 2 ^ 23"
    by blast
  have ent: "\<bar>r32 (r64 (real (count_list labels c) / real ?N))
                    - real (count_list labels c) / real ?N\<bar> \<le> 1 / 2 ^ 23" for c
    by (rule prior_value(4)[OF count_le_length])
  have "set (map fst (Counter labels)) = set labels" by (rule Counter_props(2))
  with sum ent show ?thesis
    by (simp only: priors_keys Counter_props(1) priors_map_of) simp
qed

lemma r64_two_thirds: "r64 (2 / 3) = 6004799503160661 / 9007199254740992"
  by (subst r64_at[of "- 1"]) (simp_all add: rne_def)

lemma r64_one_third: "r64 (1 / 3) = 6004799503160661 / 18014398509481984"
  by (subst r64_at[of "- 2"]) (simp_all add: rne_def)

lemma prior_two_thirds: "r32 (r64 (2 / 3)) = 11184811 / 16777216"
  unfolding r64_two_thirds by (subst r32_at[of "- 1"]) (simp_all add: rne_def)

lemma prior_one_third: "r32 (r64 (1 / 3)) = 11184811 / 33554432"
  unfolding r64_one_third by (subst r32_at[of "- 2"]) (simp_all add: rne_def)

theorem estimate_class_priors_spec_witness:
  "[1, 0, 1] \<noteq> ([] :: int list)
   \<and> map_of (estimate_class_priors [1, 0, 1]) 1 = Some (Fin (11184811 / 16777216))
   \<and> map_of (estimate_class_priors [1, 0, 1]) 0 = Some (Fin (11184811 / 33554432))
   \<and> \<bar>11184811 / 16777216 - 2 / 3\<bar> \<le> (1 / 2 ^ 23 :: real)"
  using estimate_class_priors_spec[of "[1, 0, 1]"]
  by (simp add: prior_two_thirds prior_one_third)

text \<open>
  The claim C5 as stated (each entry equals count / total, and the priors sum to
  exactly 1) fails: for the labels 1, 0, 1 the stored priors are the single-precision
  numbers nearest to 2/3 and 1/3, which are not 2/3 and 1/3 and whose sum is not 1.
\<close>

theorem estimate_class_priors_rounded:
  "estimate_class_priors [1, 0, 1]
     = [(1, Fin (11184811 / 16777216)), (0, Fin (11184811 / 33554432))]
   \<and> (11184811 / 16777216 :: real) \<noteq> 2 / 3
   \<and> (11184811 / 16777216 + 11184811 / 33554432 :: real) = 33554433 / 33554432"
proof -
  have "Counter [1, 0, 1] = [(1, 2), (0, 1)]"
    by (simp add: Counter_def counter_add_def)
  then show ?thesis
    by (simp add: priors_list prior_two_thirds prior_one_third)
qed

section \<open>Conditional probabilities\<close>

lemma update_keys: "fst ` set (AList.update k v al) = insert k (fst ` set al)"
  by (induction al) auto

lemma conditional_loop_result:
  assumes "length labels = length (rows F)"
  shows "\<exists>r. conditional_loop F labels delta cs acc = Inr r
           \<and> fst ` set r = fst ` set acc \<union> set cs
           \<and> (\<forall>c. map_of r c =
                 (if c \<in> set cs then Some (class_probs F labels delta c) else map_of acc c))"
proof (induction cs arbitrary: acc)
  case Nil
  then show ?case by simp
next
  case (Cons k cs)
  let ?acc = "AList.update k (class_probs F labels delta k) acc"
  have step: "conditional_loop F labels delta (k # cs) acc
                = conditional_loop F labels delta cs ?acc"
    using assms by (simp add: mask_select_def class_probs_def)
  from Cons.IH[of ?acc] obtain r where
    r: "conditional_loop F labels delta cs ?acc = Inr r"
    and keys: "fst ` set r = fst ` set ?acc \<union> set cs"
    and look: "\<And>c. map_of r c =
                 (if c \<in> set cs then Some (class_probs F labels delta c) else map_of ?acc c)"
    by blast
  have "map_of r c =
          (if c \<in> set (k # cs) then Some (class_probs F labels delta c) else map_of acc c)"
    for c
    unfolding look[of c] by (simp add: update_conv')
  with r keys show ?case unfolding step by (auto simp: update_keys)
qed

lemma conditional_loop_lengths:
  "conditional_loop F labels delta cs acc = Inr r \<Longrightarrow> cs \<noteq> []
     \<Longrightarrow> length labels = length (rows F)"
  by (cases cs) (auto simp: mask_select_def split: if_splits)

lemma set_unique: "set (unique labels) = set labels"
  by (simp add: unique_def)

lemma fit_trained:
  assumes "length labels = length (rows F)"
  shows "\<exists>cp. fit self F labels delta =
           (self\<lparr>class_priors := Some (estimate_class_priors labels),
                 vocab_size := ncols F,
                 conditional_probabilities := Some cp\<rparr>, None)
           \<and> fst ` set cp = set labels
           \<and> (\<forall>c. map_of cp c =
                 (if c \<in> set labels then Some (class_probs F labels delta c) else None))"
proof -
  from conditional_loop_result[OF assms, of delta "unique labels" "[]"] obtain cp where
    "conditional_loop F labels delta (unique labels) [] = Inr cp"
    "fst ` set cp = set labels"
    "\<And>c. map_of cp c = (if c \<in> set labels then Some (class_probs F labels delta c) else None)"
    by (auto simp: set_unique)
  then show ?thesis
    by (intro exI[of _ cp]) (simp add: fit_def estimate_conditional_probabilities_def)
qed

lemma fit_None_lengths:
  assumes "fit self F labels delta = (m, None)" "labels \<noteq> []"
  shows "length labels = length (rows F)"
proof -
  from assms(1) obtain cp where
    "conditional_loop F labels delta (unique labels) [] = Inr cp"
    by (auto simp: fit_def estimate_conditional_probabilities_def Let_def split: sum.splits)
  moreover have "unique labels \<noteq> []"
    using assms(2) set_unique[of labels] by (metis set_empty)
  ultimately show ?thesis by (rule conditional_loop_lengths)
qed

lemma class_rows_subset:
  "set (map snd (filter fst (zip bs rs))) \<subseteq> set rs"
  by (auto dest: set_zip_rightD)

lemma length_tadd: "length (tadd xs ys) = min (length xs) (length ys)"
  by (simp add: tadd_def)

lemma foldl_tadd_length:
  "length acc = n \<Longrightarrow> \<forall>r \<in> set rs. length r = n \<Longrightarrow> length (foldl tadd acc rs) = n"
  by (induction rs arbitrary: acc) (simp_all add: length_tadd)

lemma sum_dim0_length: "\<forall>r \<in> set rs. length r = n \<Longrightarrow> length (sum_dim0 n rs) = n"
  by (simp add: sum_dim0_def foldl_tadd_length length_zeros)

lemma masked_sum:
  "length ls = length rs \<Longrightarrow>
     (\<Sum>r \<leftarrow> map snd (filter fst (zip (map P ls) rs)). f r)
       = (\<Sum>(l, r) \<leftarrow> zip ls rs. if P l then f r else (0::real))"
  by (induction ls rs rule: list_induct2) simp_all

lemma length_smooth: "length (smooth wc delta n) = length wc"
  by (simp add: smooth_def)

lemma count_entry_nat: "count_entry x \<Longrightarrow> x = Fin (real (nat \<lfloor>val x\<rfloor>))"
proof -
  assume "count_entry x"
  then obtain a where x: "x = Fin a" and "a \<in> \<nat>"
    by (cases x) (auto simp: count_entry_def)
  then obtain n where "a = real n" by (auto elim: Nats_cases)
  with x show ?thesis by simp
qed

lemma count_vector_nth:
  assumes "count_vector n xs" "i < n"
  shows "xs ! i = Fin (val (xs ! i))" and "val (xs ! i) \<in> \<nat>" and "0 \<le> val (xs ! i)"
proof -
  from assms have c: "count_entry (xs ! i)"
    by (simp add: count_vector_def list_all_length)
  then show "val (xs ! i) \<in> \<nat>" by (simp add: count_entry_def)
  then show "0 \<le> val (xs ! i)" by (auto elim: Nats_cases)
  from c show "xs ! i = Fin (val (xs ! i))"
    by (cases "xs ! i") (simp_all add: count_entry_def)
qed

lemma fadd_counts:
  assumes "a \<in> \<nat>" "b \<in> \<nat>" "a + b \<le> 16777216"
  shows "fadd (Fin a) (Fin b) = Fin (a + b)"
proof -
  from assms(1) obtain m where m: "a = real m" by (auto elim: Nats_cases)
  from assms(2) obtain n where n: "b = real n" by (auto elim: Nats_cases)
  note mn = m n
  with assms(3) have "real (m + n) \<le> 16777216" by simp
  then have "m + n \<le> 2 ^ 24" by (simp only: of_nat_le_iff[symmetric, where 'a = real]) simp
  from f32_nat[OF this] show ?thesis by (simp add: mn)
qed

lemma count_vector_zeros: "count_vector n (zeros n)"
  by (simp add: count_vector_def zeros_def list_all_length count_entry_def)

lemma foldl_tadd_counts:
  assumes "count_vector n acc" "\<forall>r \<in> set rs. count_vector n r"
    and "\<forall>i < n. val (acc ! i) + (\<Sum>r \<leftarrow> rs. val (r ! i)) \<le> 16777216"
  shows "count_vector n (foldl tadd acc rs)
         \<and> (\<forall>i < n. val (foldl tadd acc rs ! i) = val (acc ! i) + (\<Sum>r \<leftarrow> rs. val (r ! i)))"
  using assms
proof (induction rs arbitrary: acc)
  case Nil
  then show ?case by simp
next
  case (Cons r rs)
  have r: "count_vector n r" using Cons.prems(2) by simp
  have rest: "\<forall>r \<in> set rs. count_vector n r" using Cons.prems(2) by simp
  have la: "length acc = n" and lr: "length r = n"
    using Cons.prems(1) r by (simp_all add: count_vector_def)
  have nonneg: "0 \<le> (\<Sum>r \<leftarrow> rs. val (r ! i))" if "i < n" for i
  proof (rule sum_list_nonneg)
    fix x assume "x \<in> set (map (\<lambda>r. val (r ! i)) rs)"
    then obtain r' where "r' \<in> set rs" "x = val (r' ! i)" by auto
    with rest count_vector_nth(3)[of n r' i] that show "0 \<le> x" by simp
  qed
  have e: "tadd acc r ! i = Fin (val (acc ! i) + val (r ! i))" if i: "i < n" for i
  proof -
    have "val (acc ! i) + val (r ! i) \<le> 16777216"
      using Cons.prems(3) i nonneg[OF i] by fastforce
    from fadd_counts[OF count_vector_nth(2)[OF Cons.prems(1) i] count_vector_nth(2)[OF r i] this]
    have "fadd (Fin (val (acc ! i))) (Fin (val (r ! i))) = Fin (val (acc ! i) + val (r ! i))" .
    moreover have "tadd acc r ! i = fadd (acc ! i) (r ! i)"
      using i la lr by (simp add: tadd_def)
    ultimately show ?thesis
      using count_vector_nth(1)[OF Cons.prems(1) i] count_vector_nth(1)[OF r i] by simp
  qed
  have cv: "count_vector n (tadd acc r)"
    unfolding count_vector_def list_all_length
  proof (intro conjI allI impI)
    show "length (tadd acc r) = n" using la lr by (simp add: tadd_def)
  next
    fix i assume "i < length (tadd acc r)"
    then have i: "i < n" using la lr by (simp add: tadd_def)
    have "val (acc ! i) + val (r ! i) \<in> \<nat>"
      using count_vector_nth(2)[OF Cons.prems(1) i] count_vector_nth(2)[OF r i]
      by (rule Nats_add)
    then show "count_entry (tadd acc r ! i)" by (simp add: e[OF i] count_entry_def)
  qed
  have bound: "\<forall>i < n. val (tadd acc r ! i) + (\<Sum>r \<leftarrow> rs. val (r ! i)) \<le> 16777216"
    using Cons.prems(3) by (simp add: e add.assoc)
  from Cons.IH[OF cv rest bound] show ?case
    by (simp add: e add.assoc)
qed

lemma sum_dim0_counts:
  assumes "\<forall>r \<in> set rs. count_vector n r"
    and "\<forall>i < n. (\<Sum>r \<leftarrow> rs. val (r ! i)) \<le> 16777216"
  shows "count_vector n (sum_dim0 n rs)"
    and "i < n \<Longrightarrow> val (sum_dim0 n rs ! i) = (\<Sum>r \<leftarrow> rs. val (r ! i))"
proof -
  have "\<forall>i < n. val (zeros n ! i) + (\<Sum>r \<leftarrow> rs. val (r ! i)) \<le> 16777216"
    using assms(2) by (simp add: zeros_def)
  from foldl_tadd_counts[OF count_vector_zeros assms(1) this]
  show "count_vector n (sum_dim0 n rs)"
    and "i < n \<Longrightarrow> val (sum_dim0 n rs ! i) = (\<Sum>r \<leftarrow> rs. val (r ! i))"
    by (simp_all add: sum_dim0_def zeros_def)
qed

lemma tsum_counts_aux:
  assumes "list_all count_entry xs" "a \<in> \<nat>" "a + sum_list (map val xs) \<le> 16777216"
  shows "foldl fadd (Fin a) xs = Fin (a + sum_list (map val xs))"
  using assms
proof (induction xs arbitrary: a)
  case Nil
  then show ?case by simp
next
  case (Cons x xs)
  from Cons.prems(1) have cx: "count_entry x" and rest: "list_all count_entry xs" by simp_all
  from cx obtain b where x: "x = Fin b" and b: "b \<in> \<nat>"
    by (cases x) (auto simp: count_entry_def)
  have "0 \<le> sum_list (map val xs)"
  proof (rule sum_list_nonneg)
    fix v assume "v \<in> set (map val xs)"
    then obtain y where "y \<in> set xs" "v = val y" by auto
    with rest have "val y \<in> \<nat>" by (simp add: list_all_iff count_entry_def)
    with \<open>v = val y\<close> show "0 \<le> v" by (auto elim: Nats_cases)
  qed
  with Cons.prems(3) x have ab: "a + b \<le> 16777216" by simp
  have step: "fadd (Fin a) x = Fin (a + b)"
    unfolding x by (rule fadd_counts[OF Cons.prems(2) b ab])
  have "a + b \<in> \<nat>" using Cons.prems(2) b by (rule Nats_add)
  from Cons.IH[OF rest this] Cons.prems(3) x
  have "foldl fadd (Fin (a + b)) xs = Fin (a + b + sum_list (map val xs))"
    by (simp add: add.assoc)
  then show ?case
    unfolding x foldl_Cons step[unfolded x] by (simp add: add.assoc)
qed

lemma tsum_counts:
  assumes "list_all count_entry xs" "sum_list (map val xs) \<le> 16777216"
  shows "tsum xs = Fin (sum_list (map val xs))"
  using tsum_counts_aux[OF assms(1), of 0] assms(2) by (simp add: tsum_def)

lemma sum_list_nth: "sum_list (map f xs) = (\<Sum>i \<leftarrow> [0..<length xs]. f (xs ! i))"
proof -
  have "map (\<lambda>i. f (xs ! i)) [0..<length xs] = map f (map ((!) xs) [0..<length xs])"
    by (simp only: map_map comp_def)
  also have "\<dots> = map f xs" by (simp only: map_nth)
  finally have "map (\<lambda>i. f (xs ! i)) [0..<length xs] = map f xs" .
  then show ?thesis by (rule arg_cong[where f = sum_list, symmetric])
qed

lemma f32_range:
  assumes "2 powi a \<le> x" "x \<le> 2 powi b" "- 149 \<le> a" "b \<le> 127"
  shows "f32 x = Fin (r32 x)" and "2 powi a \<le> r32 x" and "r32 x \<le> 2 powi b"
proof -
  have "(0::real) < 2 powi a" by simp
  with assms(1) have pos: "0 < x" by linarith
  from assms(1,2) have "(2::real) powi a \<le> 2 powi b" by linarith
  then have ab: "a \<le> b" by (metis linorder_not_less pow2_strict_mono)
  have "\<bar>x\<bar> \<le> 2 powi b" using pos assms(2) by simp
  from f32_abs(1)[OF this] assms(3,4) ab show "f32 x = Fin (r32 x)" by simp
  from rnd_range[OF assms(1,2), of "- 126" 24] assms(3)
  show "2 powi a \<le> r32 x" and "r32 x \<le> 2 powi b" by (simp_all add: r32_def)
qed

lemma f64_range:
  assumes "2 powi a \<le> x" "x \<le> 2 powi b" "- 1074 \<le> a" "b \<le> 1023"
  shows "f64 x = Fin (r64 x)" and "2 powi a \<le> r64 x" and "r64 x \<le> 2 powi b"
proof -
  have "(0::real) < 2 powi a" by simp
  with assms(1) have pos: "0 < x" by linarith
  from assms(1,2) have "(2::real) powi a \<le> 2 powi b" by linarith
  then have ab: "a \<le> b" by (metis linorder_not_less pow2_strict_mono)
  have "\<bar>x\<bar> \<le> 2 powi b" using pos assms(2) by simp
  from f64_abs(1)[OF this] assms(3,4) ab show "f64 x = Fin (r64 x)" by simp
  from rnd_range[OF assms(1,2), of "- 1022" 53] assms(3)
  show "2 powi a \<le> r64 x" and "r64 x \<le> 2 powi b" by (simp_all add: r64_def)
qed

lemma f64_nat: "n \<le> 2 ^ 53 \<Longrightarrow> f64 (real n) = Fin (real n)"
proof -
  assume n: "n \<le> 2 ^ 53"
  then have "real n \<le> 2 ^ 53" by (metis of_nat_le_iff of_nat_numeral of_nat_power)
  then have "\<bar>real n\<bar> \<le> 2 powi 53" by simp
  from f64_abs(1)[OF this] r64_nat[OF n] show ?thesis by simp
qed

lemma count_matrix_rows:
  "count_matrix F \<Longrightarrow> r \<in> set (rows F) \<Longrightarrow> count_vector (ncols F) r"
  by (simp add: count_matrix_def list_all_iff)

lemma count_matrix_rectangular: "count_matrix F \<Longrightarrow> rectangular F"
  by (simp add: count_matrix_def rectangular_def count_vector_def list_all_iff)

lemma spec_word_count_nonneg:
  assumes "count_matrix F" "i < ncols F"
  shows "0 \<le> spec_word_count F labels c i"
  unfolding spec_word_count_def
proof (rule sum_list_nonneg)
  fix x assume "x \<in> set (map (\<lambda>(l, r). if l = c then val (r ! i) else 0) (zip labels (rows F)))"
  then obtain l r where "(l, r) \<in> set (zip labels (rows F))"
    and x: "x = (if l = c then val (r ! i) else 0)" by auto
  then have "r \<in> set (rows F)" by (auto dest: set_zip_rightD)
  from count_vector_nth(3)[OF count_matrix_rows[OF assms(1) this] assms(2)] x
  show "0 \<le> x" by simp
qed

lemma spec_word_count_nat:
  assumes "count_matrix F" "i < ncols F"
  shows "spec_word_count F labels c i \<in> \<nat>"
proof -
  have "sum_list (map f ps) \<in> \<nat>" if "\<forall>p \<in> set ps. f p \<in> \<nat>"
    for f :: "int \<times> tensor \<Rightarrow> real" and ps
    using that by (induction ps) (simp_all add: Nats_add)
  moreover have "\<forall>p \<in> set (zip labels (rows F)).
                   (case p of (l, r) \<Rightarrow> if l = c then val (r ! i) else 0) \<in> \<nat>"
  proof
    fix p assume p: "p \<in> set (zip labels (rows F))"
    obtain l r where lr: "p = (l, r)" by (cases p)
    with p have "r \<in> set (rows F)" by (auto dest: set_zip_rightD)
    from count_vector_nth(2)[OF count_matrix_rows[OF assms(1) this] assms(2)]
    show "(case p of (l, r) \<Rightarrow> if l = c then val (r ! i) else 0) \<in> \<nat>"
      by (simp add: lr)
  qed
  ultimately show ?thesis unfolding spec_word_count_def by blast
qed

lemma spec_total_words_nonneg:
  assumes "count_matrix F"
  shows "0 \<le> spec_total_words F labels c"
  unfolding spec_total_words_def
  by (rule sum_list_nonneg) (auto simp: spec_word_count_nonneg[OF assms])

lemma spec_word_count_le_total:
  assumes "count_matrix F" "i < ncols F"
  shows "spec_word_count F labels c i \<le> spec_total_words F labels c"
proof -
  have "spec_word_count F labels c i
          \<in> set (map (spec_word_count F labels c) [0..<ncols F])"
    using assms(2) by simp
  moreover have "\<forall>x \<in> set (map (spec_word_count F labels c) [0..<ncols F]). 0 \<le> x"
    using spec_word_count_nonneg[OF assms(1)] by auto
  ultimately show ?thesis
    unfolding spec_total_words_def by (intro member_le_sum_list) auto
qed

lemma class_word_counts:
  assumes cm: "count_matrix F" and len: "length labels = length (rows F)"
    and tot: "spec_total_words F labels c \<le> 16777216"
  shows "count_vector (ncols F)
           (sum_dim0 (ncols F)
              (map snd (filter fst (zip (map (\<lambda>l. l = c) labels) (rows F)))))"
    and "i < ncols F \<Longrightarrow>
           sum_dim0 (ncols F)
              (map snd (filter fst (zip (map (\<lambda>l. l = c) labels) (rows F)))) ! i
             = Fin (spec_word_count F labels c i)"
    and "tsum (sum_dim0 (ncols F)
              (map snd (filter fst (zip (map (\<lambda>l. l = c) labels) (rows F)))))
           = Fin (spec_total_words F labels c)"
proof -
  let ?n = "ncols F"
  let ?rs = "map snd (filter fst (zip (map (\<lambda>l. l = c) labels) (rows F)))"
  let ?wc = "sum_dim0 ?n ?rs"
  have rows: "\<forall>r \<in> set ?rs. count_vector ?n r"
    using class_rows_subset[of "map (\<lambda>l. l = c) labels" "rows F"]
      count_matrix_rows[OF cm] by blast
  have col: "(\<Sum>r \<leftarrow> ?rs. val (r ! j)) = spec_word_count F labels c j" for j
    unfolding spec_word_count_def by (rule masked_sum[OF len])
  have small: "\<forall>j < ?n. (\<Sum>r \<leftarrow> ?rs. val (r ! j)) \<le> 16777216"
  proof (intro allI impI)
    fix j assume "j < ?n"
    from spec_word_count_le_total[OF cm this, of labels c] tot
    show "(\<Sum>r \<leftarrow> ?rs. val (r ! j)) \<le> 16777216"
      unfolding col by linarith
  qed
  show cv: "count_vector ?n ?wc" by (rule sum_dim0_counts(1)[OF rows small])
  have wc: "val (?wc ! j) = spec_word_count F labels c j" if "j < ?n" for j
    unfolding sum_dim0_counts(2)[OF rows small that] by (rule col)
  show "?wc ! i = Fin (spec_word_count F labels c i)" if "i < ?n"
    using count_vector_nth(1)[OF cv that] wc[OF that] by simp
  have lw: "length ?wc = ?n" using cv by (simp add: count_vector_def)
  have "sum_list (map val ?wc) = (\<Sum>j \<leftarrow> [0..<?n]. val (?wc ! j))"
    using sum_list_nth[of val ?wc] lw by simp
  also have "\<dots> = spec_total_words F labels c"
    unfolding spec_total_words_def
    by (rule arg_cong[where f = sum_list]) (simp add: wc)
  finally have t: "sum_list (map val ?wc) = spec_total_words F labels c" .
  have "list_all count_entry ?wc" using cv by (simp add: count_vector_def)
  from tsum_counts[OF this] t tot show "tsum ?wc = Fin (spec_total_words F labels c)"
    by simp
qed

lemma class_probs_entries:
  assumes cm: "count_matrix F" and len: "length labels = length (rows F)"
    and tot: "spec_total_words F labels c \<le> 16777216"
  shows "length (class_probs F labels delta c) = ncols F"
    and "i < ncols F \<Longrightarrow> class_probs F labels delta c ! i =
           fdiv (fadd (Fin (spec_word_count F labels c i)) (to_f32 delta))
                (fadd (Fin (spec_total_words F labels c))
                      (to_f32 (py_float_times_int delta (ncols F))))"
proof -
  note w = class_word_counts[OF assms]
  have lw: "length (sum_dim0 (ncols F)
              (map snd (filter fst (zip (map (\<lambda>l. l = c) labels) (rows F))))) = ncols F"
    using w(1) by (simp add: count_vector_def)
  show "length (class_probs F labels delta c) = ncols F"
    by (simp add: class_probs_def length_smooth lw)
  show "class_probs F labels delta c ! i =
           fdiv (fadd (Fin (spec_word_count F labels c i)) (to_f32 delta))
                (fadd (Fin (spec_total_words F labels c))
                      (to_f32 (py_float_times_int delta (ncols F))))"
    if "i < ncols F"
    using that lw by (simp add: class_probs_def smooth_def Let_def w(2)[OF that] w(3))
qed

lemma smoothed_range:
  assumes W: "0 \<le> W" "W \<le> T" and T: "T \<le> 16777216"
    and d: "2 powi (- 40) \<le> d" "d \<le> 2 powi 40"
    and n: "0 < n" "n \<le> 16777216"
  shows "\<exists>q. fdiv (fadd (Fin W) (to_f32 (Fin d)))
                  (fadd (Fin T) (to_f32 (py_float_times_int (Fin d) n))) = Fin q
             \<and> 2 powi (- 105) \<le> q \<and> q \<le> 2 powi 81"
proof -
  have d32: "f32 d = Fin (r32 d)" "2 powi (- 40) \<le> r32 d" "r32 d \<le> 2 powi 40"
    using f32_range[OF d] by simp_all
  let ?d32 = "r32 d"
  have num_in: "2 powi (- 40) \<le> W + ?d32" "W + ?d32 \<le> 2 powi 41"
    using W T d32(2,3) by simp_all
  have num: "f32 (W + ?d32) = Fin (r32 (W + ?d32))" "2 powi (- 40) \<le> r32 (W + ?d32)"
    "r32 (W + ?d32) \<le> 2 powi 41"
    using f32_range[OF num_in] by simp_all
  let ?num = "r32 (W + ?d32)"
  have n53: "n \<le> 2 ^ 53" using n(2) by simp
  have "1 \<le> real n" "real n \<le> 16777216" using n by simp_all
  then have dn: "2 powi (- 40) \<le> d * real n" "d * real n \<le> 2 powi 64"
  proof -
    have "2 powi (- 40) * 1 \<le> d * real n"
      using d(1) \<open>1 \<le> real n\<close> by (intro mult_mono) simp_all
    then show "2 powi (- 40) \<le> d * real n" by simp
    have "d * real n \<le> 2 powi 40 * 16777216"
      using d(2) \<open>real n \<le> 16777216\<close> d(1) by (intro mult_mono) simp_all
    then show "d * real n \<le> 2 powi 64" by simp
  qed
  have b64: "f64 (d * real n) = Fin (r64 (d * real n))" "2 powi (- 40) \<le> r64 (d * real n)"
    "r64 (d * real n) \<le> 2 powi 64"
    using f64_range[OF dn] by simp_all
  let ?b64 = "r64 (d * real n)"
  have b32: "f32 ?b64 = Fin (r32 ?b64)" "2 powi (- 40) \<le> r32 ?b64" "r32 ?b64 \<le> 2 powi 64"
    using f32_range[OF b64(2,3)] by simp_all
  let ?b32 = "r32 ?b64"
  have beta: "to_f32 (py_float_times_int (Fin d) n) = Fin ?b32"
    by (simp add: py_float_times_int_def f64_nat[OF n53] b64(1) b32(1))
  have den_in: "2 powi (- 40) \<le> T + ?b32" "T + ?b32 \<le> 2 powi 65"
    using W T b32(2,3) by simp_all
  have den: "f32 (T + ?b32) = Fin (r32 (T + ?b32))" "2 powi (- 40) \<le> r32 (T + ?b32)"
    "r32 (T + ?b32) \<le> 2 powi 65"
    using f32_range[OF den_in] by simp_all
  let ?den = "r32 (T + ?b32)"
  have p40: "(0::real) < 2 powi (- 40)" by simp
  have dpos: "0 < ?den" using den(2) p40 by linarith
  have npos: "0 < ?num" using num(2) p40 by linarith
  have q_in: "2 powi (- 105) \<le> ?num / ?den" "?num / ?den \<le> 2 powi 81"
  proof -
    have "2 powi (- 40) / 2 powi 65 \<le> ?num / ?den"
      using num(2) den(3) dpos by (intro frac_le) simp_all
    then show "2 powi (- 105) \<le> ?num / ?den"
      by (simp add: pow2_diff[symmetric])
    have "?num / ?den \<le> 2 powi 41 / 2 powi (- 40)"
      using num(3) den(2) npos by (intro frac_le) simp_all
    then show "?num / ?den \<le> 2 powi 81"
      by (simp add: pow2_diff[symmetric])
  qed
  have q: "f32 (?num / ?den) = Fin (r32 (?num / ?den))" "2 powi (- 105) \<le> r32 (?num / ?den)"
    "r32 (?num / ?den) \<le> 2 powi 81"
    using f32_range[OF q_in] by simp_all
  have "fdiv (fadd (Fin W) (to_f32 (Fin d)))
             (fadd (Fin T) (to_f32 (py_float_times_int (Fin d) n))) = Fin (r32 (?num / ?den))"
    using dpos by (simp add: beta d32(1) num(1) den(1) q(1))
  with q(2,3) show ?thesis by blast
qed

lemma f32_numeral: "numeral k \<le> (16777216::nat) \<Longrightarrow> f32 (numeral k) = Fin (numeral k)"
  using f32_nat[of "numeral k"] by simp

lemma f64_numeral:
  "numeral k \<le> (9007199254740992::nat) \<Longrightarrow> f64 (numeral k) = Fin (numeral k)"
  using f64_nat[of "numeral k"] by simp

lemma f64_0: "f64 0 = Fin 0" using f64_nat[of 0] by simp
lemma f64_1: "f64 1 = Fin 1" using f64_nat[of 1] by simp

lemmas small_floats = f32_0 f32_1 f64_0 f64_1 f32_numeral f64_numeral

lemma f32_two_fifths: "f32 (2 / 5) = Fin (13421773 / 33554432)"
proof -
  have "r32 (2 / 5) = 13421773 / 33554432"
    by (subst r32_at[of "- 2"]) (simp_all add: rne_def)
  moreover have "f32 (2 / 5) = Fin (r32 (2 / 5))"
    by (rule f32_abs(1)[of _ 0]) simp_all
  ultimately show ?thesis by simp
qed

lemma f32_one_fifth: "f32 (1 / 5) = Fin (13421773 / 67108864)"
proof -
  have "r32 (1 / 5) = 13421773 / 67108864"
    by (subst r32_at[of "- 3"]) (simp_all add: rne_def)
  moreover have "f32 (1 / 5) = Fin (r32 (1 / 5))"
    by (rule f32_abs(1)[of _ 0]) simp_all
  ultimately show ?thesis by simp
qed

lemma f32_underflow: "f32 (2 powi (- 160)) = Fin 0" "f32 (2 powi (- 159)) = Fin 0"
proof -
  have "r32 (2 powi (- 160)) = 0"
    by (subst r32_at[of "- 160"]) (simp_all add: rne_def)
  moreover have "f32 (2 powi (- 160)) = Fin (r32 (2 powi (- 160)))"
    by (rule f32_abs(1)[of _ 0]) simp_all
  ultimately show "f32 (2 powi (- 160)) = Fin 0" by simp
  have "r32 (2 powi (- 159)) = 0"
    by (subst r32_at[of "- 159"]) (simp_all add: rne_def)
  moreover have "f32 (2 powi (- 159)) = Fin (r32 (2 powi (- 159)))"
    by (rule f32_abs(1)[of _ 0]) simp_all
  ultimately show "f32 (2 powi (- 159)) = Fin 0" by simp
qed

lemma f64_tiny: "f64 (2 powi (- 159)) = Fin (2 powi (- 159))"
proof -
  have "r64 (2 powi (- 159)) = 2 powi (- 159)"
    unfolding r64_def by (rule rnd_pow2) simp_all
  moreover have "f64 (2 powi (- 159)) = Fin (r64 (2 powi (- 159)))"
    by (rule f64_abs(1)[of _ 0]) simp_all
  ultimately show ?thesis by simp
qed

text \<open>
  Claim C4, as amended. For every matrix of counts (rectangular, every entry a natural
  number) in which the words of each class total at most \<open>2^24\<close>, every label sequence
  of the same length and every \<open>delta\<close>, \<open>fit\<close> returns without raising and stores, for
  each class, a vector with one entry per word: entry \<open>i\<close> is the single-precision
  quotient of (word count + delta) by (total words + delta * vocabulary size), each
  sum rounded to single precision, where the word count is the sum of entry \<open>i\<close> over
  the examples of the class and the total is the sum of the word counts. When delta
  lies between \<open>2^-40\<close> and \<open>2^40\<close> and the vocabulary has at most \<open>2^24\<close> words, every
  entry is finite and strictly positive.
\<close>

theorem fit_conditional_probabilities:
  assumes "count_matrix F" "length labels = length (rows F)"
    and "\<forall>c \<in> set labels. spec_total_words F labels c \<le> 16777216"
  shows "\<exists>m cp. fit self F labels delta = (m, None)
           \<and> conditional_probabilities m = Some cp \<and> vocab_size m = ncols F
           \<and> fst ` set cp = set labels
           \<and> (\<forall>c \<in> set labels. \<exists>probs. map_of cp c = Some probs \<and> length probs = ncols F
                 \<and> (\<forall>i < ncols F.
                       probs ! i =
                         fdiv (fadd (Fin (spec_word_count F labels c i)) (to_f32 delta))
                              (fadd (Fin (spec_total_words F labels c))
                                    (to_f32 (py_float_times_int delta (ncols F))))
                       \<and> (\<forall>d. delta = Fin d \<and> 2 powi (- 40) \<le> d \<and> d \<le> 2 powi 40
                                \<and> ncols F \<le> 16777216
                              \<longrightarrow> is_fin (probs ! i) \<and> 0 < val (probs ! i))))"
proof -
  from fit_trained[OF assms(2), of self delta] obtain cp where
    f: "fit self F labels delta =
           (self\<lparr>class_priors := Some (estimate_class_priors labels),
                 vocab_size := ncols F,
                 conditional_probabilities := Some cp\<rparr>, None)"
    and k: "fst ` set cp = set labels"
    and l: "\<And>c. map_of cp c =
                 (if c \<in> set labels then Some (class_probs F labels delta c) else None)"
    by blast
  have "\<exists>probs. map_of cp c = Some probs \<and> length probs = ncols F
                 \<and> (\<forall>i < ncols F.
                       probs ! i =
                         fdiv (fadd (Fin (spec_word_count F labels c i)) (to_f32 delta))
                              (fadd (Fin (spec_total_words F labels c))
                                    (to_f32 (py_float_times_int delta (ncols F))))
                       \<and> (\<forall>d. delta = Fin d \<and> 2 powi (- 40) \<le> d \<and> d \<le> 2 powi 40
                                \<and> ncols F \<le> 16777216
                              \<longrightarrow> is_fin (probs ! i) \<and> 0 < val (probs ! i)))"
    if c: "c \<in> set labels" for c
  proof -
    have tot: "spec_total_words F labels c \<le> 16777216" using assms(3) c by simp
    note e = class_probs_entries[OF assms(1,2) tot, where delta = delta]
    have pos: "is_fin (class_probs F labels delta c ! i)
               \<and> 0 < val (class_probs F labels delta c ! i)"
      if i: "i < ncols F" and d: "delta = Fin d" "2 powi (- 40) \<le> d" "d \<le> 2 powi 40"
        and n: "ncols F \<le> 16777216" for i d
    proof -
      have n0: "0 < ncols F" using i by simp
      from smoothed_range[OF spec_word_count_nonneg[OF assms(1) i, of labels c]
          spec_word_count_le_total[OF assms(1) i, of labels c] tot d(2,3) n0 n]
      obtain q where "class_probs F labels delta c ! i = Fin q" "2 powi (- 105) \<le> q"
        using e(2)[OF i] d(1) by auto
      moreover have "(0::real) < 2 powi (- 105)" by simp
      ultimately show ?thesis by simp
    qed
    show ?thesis
      using l[of c] c e pos by (intro exI[of _ "class_probs F labels delta c"]) auto
  qed
  with f k show ?thesis by auto
qed

theorem fit_conditional_probabilities_witness:
  "count_matrix \<lparr>ncols = 3, rows = [[Fin 1, Fin 1, Fin 0], [Fin 0, Fin 1, Fin 1]]\<rparr>
   \<and> length [1, 0 :: int]
       = length (rows \<lparr>ncols = 3, rows = [[Fin 1, Fin 1, Fin 0], [Fin 0, Fin 1, Fin 1]]\<rparr>)
   \<and> spec_total_words
         \<lparr>ncols = 3, rows = [[Fin 1, Fin 1, Fin 0], [Fin 0, Fin 1, Fin 1]]\<rparr> [1, 0] 1 = 2
   \<and> spec_total_words
         \<lparr>ncols = 3, rows = [[Fin 1, Fin 1, Fin 0], [Fin 0, Fin 1, Fin 1]]\<rparr> [1, 0] 0 = 2
   \<and> snd (fit NaiveBayes_init
            \<lparr>ncols = 3, rows = [[Fin 1, Fin 1, Fin 0], [Fin 0, Fin 1, Fin 1]]\<rparr>
            [1, 0] (Fin 1)) = None
   \<and> map_option (\<lambda>cp. map_of cp 1)
        (conditional_probabilities
          (fst (fit NaiveBayes_init
                 \<lparr>ncols = 3, rows = [[Fin 1, Fin 1, Fin 0], [Fin 0, Fin 1, Fin 1]]\<rparr>
                 [1, 0] (Fin 1))))
       = Some (Some [Fin (13421773 / 33554432), Fin (13421773 / 33554432),
                     Fin (13421773 / 67108864)])"
proof -
  let ?F = "\<lparr>ncols = 3, rows = [[Fin 1, Fin 1, Fin 0], [Fin 0, Fin 1, Fin 1]]\<rparr>"
  have fm: "count_matrix ?F"
    by (simp add: count_matrix_def count_vector_def count_entry_def)
  have len: "length [1, 0 :: int] = length (rows ?F)" by simp
  have t1: "spec_total_words ?F [1, 0] 1 = 2"
    by (simp add: spec_total_words_def spec_word_count_def upt_rec)
  have t0: "spec_total_words ?F [1, 0] 0 = 2"
    by (simp add: spec_total_words_def spec_word_count_def upt_rec)
  have tot: "\<forall>c \<in> set [1, 0]. spec_total_words ?F [1, 0] c \<le> 16777216"
    using t1 t0 by simp
  from fit_conditional_probabilities[OF fm len tot, of NaiveBayes_init "Fin 1"]
  obtain m cp probs where
    f: "fit NaiveBayes_init ?F [1, 0] (Fin 1) = (m, None)"
    and cp: "conditional_probabilities m = Some cp"
    and p: "map_of cp 1 = Some probs" "length probs = 3"
    and e: "\<And>i. i < 3 \<Longrightarrow> probs ! i =
              fdiv (fadd (Fin (spec_word_count ?F [1, 0] 1 i)) (to_f32 (Fin 1)))
                   (fadd (Fin (spec_total_words ?F [1, 0] 1))
                         (to_f32 (py_float_times_int (Fin 1) (ncols ?F))))"
    by fastforce
  have den: "fadd (Fin (spec_total_words ?F [1, 0] 1))
               (to_f32 (py_float_times_int (Fin 1) (ncols ?F))) = Fin 5"
    by (simp add: t1 py_float_times_int_def small_floats)
  have "probs ! 0 = Fin (13421773 / 33554432)" "probs ! 1 = Fin (13421773 / 33554432)"
    "probs ! 2 = Fin (13421773 / 67108864)"
    using e[of 0] e[of 1] e[of 2] unfolding den
    by (simp_all add: spec_word_count_def small_floats f32_two_fifths f32_one_fifth)
  with list3[OF p(2)]
  have "probs = [Fin (13421773 / 33554432), Fin (13421773 / 33554432),
                 Fin (13421773 / 67108864)]" by simp
  with f cp p(1) fm t1 t0 show ?thesis by simp
qed

text \<open>
  The claim C4 as stated (every conditional probability is strictly greater than 0
  whenever delta is positive) fails: with the positive \<open>delta = 2^-160\<close>, which is a
  Python float below the range of single precision, the second word of the only
  class gets the conditional probability 0.
\<close>

theorem fit_tiny_delta_zero_probability:
  "(0::real) < 2 powi (- 160)
   \<and> count_matrix \<lparr>ncols = 2, rows = [[Fin 1, Fin 0]]\<rparr>
   \<and> fit NaiveBayes_init \<lparr>ncols = 2, rows = [[Fin 1, Fin 0]]\<rparr> [0] (Fin (2 powi (- 160)))
       = (\<lparr>class_priors = Some [(0, Fin 1)],
           conditional_probabilities = Some [(0, [Fin 1, Fin 0])],
           vocab_size = 2\<rparr>, None)"
proof -
  have fm: "count_matrix \<lparr>ncols = 2, rows = [[Fin 1, Fin 0]]\<rparr>"
    by (simp add: count_matrix_def count_vector_def count_entry_def)
  define d :: real where "d = 2 powi (- 160)"
  have p: "d * 2 = 2 powi (- 159)"
    unfolding d_def using pow2_add[of "- 160" 1] by simp
  have "py_float_times_int (Fin d) 2 = dmul (Fin d) (Fin 2)"
    unfolding py_float_times_int_def using f64_nat[of 2] by simp
  also have "\<dots> = f64 (d * 2)" by (simp only: dmul.simps)
  also have "\<dots> = Fin (2 powi (- 159))" by (simp only: p f64_tiny)
  finally have beta: "to_f32 (py_float_times_int (Fin d) 2) = Fin 0"
    by (simp only: to_f32.simps f32_underflow)
  have alpha: "f32 d = Fin 0" unfolding d_def by (rule f32_underflow)
  have cond: "estimate_conditional_probabilities \<lparr>ncols = 2, rows = [[Fin 1, Fin 0]]\<rparr> [0]
                (Fin d) = Inr [(0, [Fin 1, Fin 0])]"
    by (simp add: estimate_conditional_probabilities_def unique_def mask_select_def
        sum_dim0_def zeros_def tadd_def smooth_def tsum_def Let_def numeral_2_eq_2
        beta[unfolded numeral_2_eq_2] alpha small_floats)
  have pri: "estimate_class_priors [0] = [(0, Fin 1)]"
    by (simp add: estimate_class_priors_def Counter_def counter_add_def py_int_div_def
        small_floats)
  have "fit NaiveBayes_init \<lparr>ncols = 2, rows = [[Fin 1, Fin 0]]\<rparr> [0] (Fin d)
       = (\<lparr>class_priors = Some [(0, Fin 1)],
           conditional_probabilities = Some [(0, [Fin 1, Fin 0])],
           vocab_size = 2\<rparr>, None)"
    by (simp only: fit_def pri cond) (simp add: NaiveBayes_init_def)
  with fm show ?thesis unfolding d_def by simp
qed

section \<open>Arg max and log posteriors\<close>

lemma replaces_irrefl: "\<not> replaces x x"
  by (cases x) (simp_all add: replaces_def)

lemma replaces_trans: "replaces a b \<Longrightarrow> replaces b c \<Longrightarrow> replaces a c"
  by (cases a; cases b; cases c) (simp_all add: replaces_def)

lemma replaces_weak: "replaces x b \<Longrightarrow> \<not> replaces p b \<Longrightarrow> replaces x p"
  by (cases x; cases b; cases p) (simp_all add: replaces_def)

lemma replaces_neg_trans: "\<not> replaces p b \<Longrightarrow> replaces x b \<Longrightarrow> \<not> replaces p x"
  by (cases x; cases b; cases p) (simp_all add: replaces_def)

lemma argmax_loop_spec:
  assumes "ys = pre @ xs" "i = length pre" "best_i < i" "best = ys ! best_i"
    and "\<forall>j < i. \<not> replaces (ys ! j) best"
    and "\<forall>j < best_i. replaces best (ys ! j)"
  shows "argmax_loop xs i best_i best < length ys
         \<and> (\<forall>j < length ys. \<not> replaces (ys ! j) (ys ! argmax_loop xs i best_i best))
         \<and> (\<forall>j < argmax_loop xs i best_i best.
               replaces (ys ! argmax_loop xs i best_i best) (ys ! j))"
  using assms
proof (induction xs arbitrary: pre i best_i best)
  case Nil
  then show ?case by simp
next
  case (Cons x xs)
  have ysi: "ys ! i = x" using Cons.prems(1,2) by simp
  have split: "ys = (pre @ [x]) @ xs" using Cons.prems(1) by simp
  have len: "Suc i = length (pre @ [x])" using Cons.prems(2) by simp
  show ?case
  proof (cases "replaces x best")
    case True
    have a: "\<forall>j < Suc i. \<not> replaces (ys ! j) x"
    proof (intro allI impI)
      fix j assume "j < Suc i"
      then consider "j < i" | "j = i" by linarith
      then show "\<not> replaces (ys ! j) x"
      proof cases
        case 1
        with Cons.prems(5) have "\<not> replaces (ys ! j) best" by simp
        from replaces_neg_trans[OF this True] show ?thesis .
      next
        case 2
        then show ?thesis using ysi replaces_irrefl by simp
      qed
    qed
    have b: "\<forall>j < i. replaces x (ys ! j)"
      using Cons.prems(5) replaces_weak[OF True] by blast
    from Cons.IH[OF split len _ _ a, of i] ysi b True
    show ?thesis by simp
  next
    case False
    have a: "\<forall>j < Suc i. \<not> replaces (ys ! j) best"
      using Cons.prems(5) False ysi by (auto simp: less_Suc_eq)
    have "best_i < Suc i" using Cons.prems(3) by simp
    from Cons.IH[OF split len this Cons.prems(4) a Cons.prems(6)] False
    show ?thesis by simp
  qed
qed

lemma argmax_spec:
  assumes "xs \<noteq> []"
  shows "\<exists>p. argmax xs = Inr p \<and> p < length xs
           \<and> (\<forall>j < length xs. \<not> replaces (xs ! j) (xs ! p))
           \<and> (\<forall>j < p. replaces (xs ! p) (xs ! j))"
proof -
  from assms obtain x rest where xs: "xs = x # rest" by (cases xs) auto
  have "argmax_loop rest 1 0 x < length xs
         \<and> (\<forall>j < length xs. \<not> replaces (xs ! j) (xs ! argmax_loop rest 1 0 x))
         \<and> (\<forall>j < argmax_loop rest 1 0 x. replaces (xs ! argmax_loop rest 1 0 x) (xs ! j))"
    by (rule argmax_loop_spec[where pre = "[x]"]) (simp_all add: xs replaces_irrefl)
  then show ?thesis by (simp add: argmax_def xs)
qed

lemma posteriors_loop_map:
  assumes "\<forall>p \<in> set ps. class_log_posterior cond feature p = Inr (g p)"
    and "n + length ps \<le> length lp"
  shows "posteriors_loop cond feature (enumerate n ps) lp
           = Inr (take n lp @ map g ps @ drop (n + length ps) lp)"
  using assms
proof (induction ps arbitrary: n lp)
  case Nil
  then show ?case by simp
next
  case (Cons p ps)
  obtain c prior where p: "p = (c, prior)" by (cases p)
  from Cons.prems(1) have "class_log_posterior cond feature (c, prior) = Inr (g p)"
    by (simp add: p)
  then obtain probs weighted where
    look: "map_of cond c = Some probs"
    and mul: "tmul feature (map flog probs) = Inr weighted"
    and v: "g p = fadd (flog prior) (tsum weighted)"
    by (auto simp: class_log_posterior_def split: option.splits sum.splits)
  have step: "posteriors_loop cond feature (enumerate n (p # ps)) lp
                = posteriors_loop cond feature (enumerate (Suc n) ps) (lp[n := g p])"
    using look mul v by (simp add: p)
  have n: "n < length lp" using Cons.prems(2) by simp
  have "Suc n + length ps \<le> length (lp[n := g p])" using Cons.prems(2) by simp
  from Cons.IH[OF _ this] Cons.prems(1)
  have "posteriors_loop cond feature (enumerate (Suc n) ps) (lp[n := g p])
          = Inr (take (Suc n) (lp[n := g p]) @ map g ps
                 @ drop (Suc n + length ps) (lp[n := g p]))"
    by simp
  also have "take (Suc n) (lp[n := g p]) = take n lp @ [g p]"
    using n by (simp add: take_Suc_conv_app_nth)
  also have "drop (Suc n + length ps) (lp[n := g p]) = drop (n + length (p # ps)) lp"
    by simp
  finally show ?case unfolding step by simp
qed

lemma posteriors_map:
  assumes "conditional_probabilities m = Some cond" "class_priors m = Some priors"
    and "\<forall>p \<in> set priors. class_log_posterior cond feature p = Inr (g p)"
  shows "estimate_class_posteriors m feature = Inr (map g priors)"
  using posteriors_loop_map[OF assms(3), of 0 "zeros (length priors)"] assms(1,2)
  by (simp add: estimate_class_posteriors_def length_zeros)

section \<open>Prediction with a trained model\<close>

lemma posteriors_loop_length:
  "posteriors_loop cond feature es lp = Inr lp' \<Longrightarrow> length lp' = length lp"
proof (induction es arbitrary: lp)
  case Nil
  then show ?case by simp
next
  case (Cons e es)
  obtain idx c prior where e: "e = (idx, c, prior)" by (cases e)
  from Cons.prems obtain v where
    "posteriors_loop cond feature es (lp[idx := v]) = Inr lp'"
    by (auto simp: e split: option.splits sum.splits)
  from Cons.IH[OF this] show ?case by simp
qed

lemma predict_range:
  assumes "predict m feature = Inr r"
  shows "\<exists>priors. class_priors m = Some priors \<and> 0 \<le> r \<and> r < int (length priors)"
proof -
  from assms have np: "\<not> py_not (class_priors m)" and nc: "\<not> py_not (conditional_probabilities m)"
    by (auto simp: predict_def split: if_splits)
  from np obtain priors where pr: "class_priors m = Some priors" "priors \<noteq> []"
    by (auto simp: py_not_def split: option.splits)
  from nc obtain cond where c: "conditional_probabilities m = Some cond"
    by (auto simp: py_not_def split: option.splits)
  from assms np nc obtain lp p where
    lp: "estimate_class_posteriors m feature = Inr lp" and p: "argmax lp = Inr p"
    and r: "r = int p"
    by (auto simp: predict_def split: sum.splits)
  from lp have "length lp = length priors"
    using posteriors_loop_length[of cond feature "enumerate 0 priors" "zeros (length priors)" lp]
    by (simp add: estimate_class_posteriors_def pr c length_zeros)
  moreover have "p < length lp"
  proof -
    from p have "lp \<noteq> []" by (auto simp: argmax_def)
    from argmax_spec[OF this] p show ?thesis by auto
  qed
  ultimately show ?thesis using pr r by simp
qed

lemma class_probs_length:
  assumes "rectangular F"
  shows "length (class_probs F labels delta c) = ncols F"
proof -
  have "\<forall>r \<in> set (map snd (filter fst (zip (map (\<lambda>l. l = c) labels) (rows F)))).
          length r = ncols F"
  proof
    fix r assume "r \<in> set (map snd (filter fst (zip (map (\<lambda>l. l = c) labels) (rows F))))"
    with class_rows_subset[of "map (\<lambda>l. l = c) labels" "rows F"]
    have "r \<in> set (rows F)" by blast
    with assms show "length r = ncols F" by (simp add: rectangular_def list_all_iff)
  qed
  then show ?thesis
    by (simp add: class_probs_def length_smooth sum_dim0_length)
qed

lemma priors_entry:
  assumes "(c, prior) \<in> set (estimate_class_priors labels)"
  shows "c \<in> set labels"
    and "prior = Fin (r32 (r64 (real (count_list labels c) / real (length labels))))"
proof -
  have "distinct (map fst (estimate_class_priors labels))"
    by (simp add: priors_keys Counter_props(1))
  from map_of_is_SomeI[OF this assms]
  have "map_of (estimate_class_priors labels) c = Some prior" .
  then show "c \<in> set labels"
    and "prior = Fin (r32 (r64 (real (count_list labels c) / real (length labels))))"
    by (simp_all add: priors_map_of split: if_splits)
qed

lemma trained_model:
  assumes fit: "fit self F labels delta = (m, None)" and ne: "labels \<noteq> []"
    and rect: "rectangular F" and len: "length feature = ncols F"
  shows "class_priors m = Some (estimate_class_priors labels)"
    and "estimate_class_priors labels \<noteq> []"
    and "\<not> py_not (class_priors m)" and "\<not> py_not (conditional_probabilities m)"
    and "estimate_class_posteriors m feature =
           Inr (map (trained_log_posterior F labels delta feature)
                  (estimate_class_priors labels))"
proof -
  have ll: "length labels = length (rows F)" by (rule fit_None_lengths[OF fit ne])
  from fit_trained[OF ll, of self delta] fit obtain cp where
    m: "m = self\<lparr>class_priors := Some (estimate_class_priors labels),
                 vocab_size := ncols F,
                 conditional_probabilities := Some cp\<rparr>"
    and k: "fst ` set cp = set labels"
    and l: "\<And>c. map_of cp c =
                 (if c \<in> set labels then Some (class_probs F labels delta c) else None)"
    by auto
  show p: "class_priors m = Some (estimate_class_priors labels)" by (simp add: m)
  have c: "conditional_probabilities m = Some cp" by (simp add: m)
  have "set (map fst (estimate_class_priors labels)) = set labels"
    by (simp only: priors_keys Counter_props(2))
  with ne show pne: "estimate_class_priors labels \<noteq> []" by auto
  then show "\<not> py_not (class_priors m)" by (simp add: p py_not_def)
  have "cp \<noteq> []" using k ne by auto
  then show "\<not> py_not (conditional_probabilities m)" by (simp add: c py_not_def)
  have "class_log_posterior cp feature e = Inr (trained_log_posterior F labels delta feature e)"
    if "e \<in> set (estimate_class_priors labels)" for e
  proof -
    obtain cl prior where e: "e = (cl, prior)" by (cases e)
    from that have "cl \<in> set labels" using priors_entry(1) e by simp
    then have "map_of cp cl = Some (class_probs F labels delta cl)" using l[of cl] by simp
    moreover have "tmul feature (map flog (class_probs F labels delta cl))
                     = Inr (map2 fmul feature (map flog (class_probs F labels delta cl)))"
      by (simp add: tmul_def len class_probs_length[OF rect])
    ultimately show ?thesis
      by (simp add: class_log_posterior_def trained_log_posterior_def e)
  qed
  then show "estimate_class_posteriors m feature =
           Inr (map (trained_log_posterior F labels delta feature)
                  (estimate_class_priors labels))"
    by (intro posteriors_map[OF c p]) simp
qed

section \<open>Bounds on rounded values\<close>

lemma f32_fin: "\<bar>x\<bar> \<le> 2 powi 127 \<Longrightarrow> f32 x = Fin (r32 x)"
  by (rule f32_abs(1)[of _ 127]) simp_all

lemma r32_bound: "\<bar>x\<bar> \<le> 2 powi b \<Longrightarrow> - 149 \<le> b \<Longrightarrow> \<bar>r32 x\<bar> \<le> 2 powi b"
  unfolding r32_def by (rule rnd_abs_le) simp_all

lemma r32_neg: "r32 (- x) = - r32 x"
  by (simp add: r32_def rnd_neg)

lemma r32_0: "r32 0 = 0"
  by (simp add: r32_def rnd_zero)

lemma r32_exact: "n \<le> 2 ^ 24 \<Longrightarrow> - 149 \<le> j \<Longrightarrow> r32 (real n * 2 powi j) = real n * 2 powi j"
  unfolding r32_def by (rule rnd_nat_exact) simp_all

lemma r32_le: "x \<le> y \<Longrightarrow> r32 y = y \<Longrightarrow> r32 x \<le> y"
  using r32_mono[of x y] by simp

lemma r32_ge: "y \<le> x \<Longrightarrow> r32 y = y \<Longrightarrow> y \<le> r32 x"
  using r32_mono[of y x] by simp

lemma r32_error: "\<bar>x\<bar> \<le> B \<Longrightarrow> 2 powi (- 126) \<le> B \<Longrightarrow> \<bar>r32 x - x\<bar> \<le> B * 2 powi (- 24)"
  unfolding r32_def using rnd_error_bound[of x B "- 126" 24] by simp

lemma f32_between:
  assumes "lo \<le> x" "x \<le> hi" "r32 lo = lo" "r32 hi = hi"
    and "\<bar>lo\<bar> \<le> 2 powi 127" "\<bar>hi\<bar> \<le> 2 powi 127"
  shows "f32 x = Fin (r32 x)" and "lo \<le> r32 x" and "r32 x \<le> hi"
proof -
  have "\<bar>x\<bar> \<le> 2 powi 127" using assms(1,2,5,6) by linarith
  then show "f32 x = Fin (r32 x)" by (rule f32_fin)
  show "lo \<le> r32 x" by (rule r32_ge[OF assms(1,3)])
  show "r32 x \<le> hi" by (rule r32_le[OF assms(2,4)])
qed

lemma ln_upper: "0 < x \<Longrightarrow> x \<le> exp c \<Longrightarrow> ln x \<le> (c::real)"
  using ln_le_cancel_iff[of x "exp c"] by simp

lemma ln_lower: "0 < x \<Longrightarrow> exp c \<le> x \<Longrightarrow> (c::real) \<le> ln x"
  by (simp add: ln_ge_iff)

lemma exp_neg_upper: "0 \<le> c \<Longrightarrow> exp (- c) \<le> 1 / (1 + c + c\<^sup>2 / 2)" for c :: real
proof -
  assume c: "0 \<le> c"
  have "0 < 1 + c + c\<^sup>2 / 2" using c by (simp add: add_pos_nonneg)
  moreover have "1 + c + c\<^sup>2 / 2 \<le> exp c" by (rule exp_lower_Taylor_quadratic[OF c])
  ultimately have "1 / exp c \<le> 1 / (1 + c + c\<^sup>2 / 2)" by (simp add: frac_le)
  then show ?thesis by (simp add: exp_minus inverse_eq_divide)
qed

lemma exp_neg_lower: "0 \<le> c \<Longrightarrow> c \<le> 1 \<Longrightarrow> 1 / (1 + c + c\<^sup>2) \<le> exp (- c)" for c :: real
proof -
  assume c: "0 \<le> c" "c \<le> 1"
  have "exp c \<le> 1 + c + c\<^sup>2" by (rule exp_bound[OF c])
  moreover have "0 < exp c" by simp
  ultimately have "1 / (1 + c + c\<^sup>2) \<le> 1 / exp c" by (intro frac_le) simp_all
  then show ?thesis by (simp add: exp_minus inverse_eq_divide)
qed

section \<open>The examples\<close>

lemma f64_half: "f64 (1 / 2) = Fin (1 / 2)"
proof -
  have "r64 (1 / 2) = 1 / 2" using rnd_pow2[of "- 1022" 53 "- 1"] by (simp add: r64_def)
  moreover have "f64 (1 / 2) = Fin (r64 (1 / 2))" by (rule f64_abs(1)[of _ 0]) simp_all
  ultimately show ?thesis by simp
qed

lemma f32_half: "f32 (1 / 2) = Fin (1 / 2)"
proof -
  have "r32 (1 / 2) = 1 / 2" using rnd_pow2[of "- 126" 24 "- 1"] by (simp add: r32_def)
  moreover have "f32 (1 / 2) = Fin (r32 (1 / 2))" by (rule f32_abs(1)[of _ 0]) simp_all
  ultimately show ?thesis by simp
qed

lemma example_fit:
  "fit NaiveBayes_init
     \<lparr>ncols = 3, rows = [[Fin 1, Fin 1, Fin 0], [Fin 0, Fin 1, Fin 1]]\<rparr> [1, 0] (Fin 1)
   = (\<lparr>class_priors = Some [(1, Fin (1 / 2)), (0, Fin (1 / 2))],
       conditional_probabilities =
         Some [(0, [Fin (13421773 / 67108864), Fin (13421773 / 33554432),
                    Fin (13421773 / 33554432)]),
               (1, [Fin (13421773 / 33554432), Fin (13421773 / 33554432),
                    Fin (13421773 / 67108864)])],
       vocab_size = 3\<rparr>, None)"
proof -
  have pri: "estimate_class_priors [1, 0] = [(1, Fin (1 / 2)), (0, Fin (1 / 2))]"
    by (simp add: estimate_class_priors_def Counter_def counter_add_def py_int_div_def
        f64_half f32_half)
  have uni: "unique [1, 0] = [0, 1]"
    by (simp add: unique_def)
  have beta: "to_f32 (py_float_times_int (Fin 1) 3) = Fin 3"
    by (simp add: py_float_times_int_def small_floats)
  have cond: "estimate_conditional_probabilities
       \<lparr>ncols = 3, rows = [[Fin 1, Fin 1, Fin 0], [Fin 0, Fin 1, Fin 1]]\<rparr> [1, 0] (Fin 1) =
     Inr [(0, [Fin (13421773 / 67108864), Fin (13421773 / 33554432),
               Fin (13421773 / 33554432)]),
          (1, [Fin (13421773 / 33554432), Fin (13421773 / 33554432),
               Fin (13421773 / 67108864)])]"
    by (simp add: estimate_conditional_probabilities_def uni mask_select_def sum_dim0_def
        zeros_def tadd_def smooth_def tsum_def Let_def numeral_3_eq_3
        beta[unfolded numeral_3_eq_3] small_floats f32_two_fifths f32_one_fifth)
  show ?thesis
    by (simp only: fit_def pri cond) (simp add: NaiveBayes_init_def)
qed

lemma representable:
  "r32 0 = 0" "r32 (- 1) = - 1" "r32 (- 2) = - 2" "r32 (- 4) = - 4" "r32 (- 6) = - 6"
  "r32 (- 7) = - 7" "r32 (- (5 / 4)) = - (5 / 4)"
  using r32_exact[of 1 0] r32_exact[of 2 0] r32_exact[of 4 0] r32_exact[of 6 0]
    r32_exact[of 7 0] r32_exact[of 5 "- 2"] r32_neg[of 1] r32_neg[of 2] r32_neg[of 4]
    r32_neg[of 6] r32_neg[of 7] r32_neg[of "5 / 4"]
  by (simp_all add: r32_0)

lemma example_logarithms:
  "- 2 \<le> ln (13421773 / 67108864 :: real)" "ln (13421773 / 67108864 :: real) \<le> - (5 / 4)"
  "- 1 \<le> ln (13421773 / 33554432 :: real)" "ln (13421773 / 33554432 :: real) \<le> 0"
  "- 1 \<le> ln (1 / 2 :: real)" "ln (1 / 2 :: real) \<le> 0"
proof -
  have e2: "exp (- 2 :: real) \<le> 1 / 5" using exp_neg_upper[of 2] by simp
  have e1: "exp (- 1 :: real) \<le> 2 / 5" using exp_neg_upper[of 1] by simp
  have "(16 / 21 :: real) \<le> exp (- (1 / 4))" using exp_neg_lower[of "1 / 4"] by (simp add: power2_eq_square)
  then have "(16 / 21 :: real) ^ 5 \<le> exp (- (1 / 4)) ^ 5" by (intro power_mono) simp_all
  also have "\<dots> = exp (- (5 / 4) :: real)"
    using exp_of_nat_mult[of 5 "- (1 / 4) :: real"] by simp
  finally have "(16 / 21 :: real) ^ 5 \<le> exp (- (5 / 4))" .
  moreover have "(16 / 21 :: real) ^ 5 = 1048576 / 4084101" by (simp add: power_divide)
  then have "(13421773 / 67108864 :: real) \<le> (16 / 21) ^ 5" by simp
  ultimately have e5: "(13421773 / 67108864 :: real) \<le> exp (- (5 / 4))" by linarith
  show "- 2 \<le> ln (13421773 / 67108864 :: real)" using e2 by (intro ln_lower) simp_all
  show "ln (13421773 / 67108864 :: real) \<le> - (5 / 4)" by (rule ln_upper[OF _ e5]) simp
  show "- 1 \<le> ln (13421773 / 33554432 :: real)" using e1 by (intro ln_lower) simp_all
  show "ln (13421773 / 33554432 :: real) \<le> 0" by (intro ln_upper) simp_all
  show "- 1 \<le> ln (1 / 2 :: real)" using e1 by (intro ln_lower) simp_all
  show "ln (1 / 2 :: real) \<le> 0" by (intro ln_upper) simp_all
qed

lemma weight_one:
  assumes "lo \<le> l" "l \<le> hi" "r32 lo = lo" "r32 hi = hi"
    and "\<bar>lo\<bar> \<le> 2 powi 127" "\<bar>hi\<bar> \<le> 2 powi 127"
  shows "fmul (Fin 1) (Fin l) = Fin (r32 l)" "lo \<le> r32 l" "r32 l \<le> hi"
  using f32_between[OF assms] by simp_all

lemma weight_zero: "fmul (Fin 0) (Fin l) = Fin 0"
  by (simp add: f32_0)

lemma posterior_of_three:
  assumes "\<bar>w1\<bar> \<le> 2 powi 20" "\<bar>w2\<bar> \<le> 2 powi 20" "\<bar>w3\<bar> \<le> 2 powi 20"
    and "\<bar>h\<bar> \<le> 2 powi 20"
  shows "fadd (Fin h) (tsum [Fin w1, Fin w2, Fin w3])
           = Fin (r32 (h + r32 (r32 (r32 (0 + w1) + w2) + w3)))"
proof -
  have p: "(2::real) powi 20 + 2 powi 20 = 2 powi 21" "(2::real) powi 21 + 2 powi 20 \<le> 2 powi 22"
    "(2::real) powi 20 + 2 powi 22 \<le> 2 powi 23"
    by simp_all
  have a1: "\<bar>0 + w1\<bar> \<le> 2 powi 20" using assms(1) by simp
  have s1: "f32 (0 + w1) = Fin (r32 (0 + w1))" "\<bar>r32 (0 + w1)\<bar> \<le> 2 powi 20"
    using f32_abs[OF a1] by simp_all
  have a2: "\<bar>r32 (0 + w1) + w2\<bar> \<le> 2 powi 21" using s1(2) assms(2) p(1) by linarith
  have s2: "f32 (r32 (0 + w1) + w2) = Fin (r32 (r32 (0 + w1) + w2))"
    "\<bar>r32 (r32 (0 + w1) + w2)\<bar> \<le> 2 powi 21"
    using f32_abs[OF a2] by simp_all
  have a3: "\<bar>r32 (r32 (0 + w1) + w2) + w3\<bar> \<le> 2 powi 22"
    using s2(2) assms(3) p(2) by linarith
  have s3: "f32 (r32 (r32 (0 + w1) + w2) + w3) = Fin (r32 (r32 (r32 (0 + w1) + w2) + w3))"
    "\<bar>r32 (r32 (r32 (0 + w1) + w2) + w3)\<bar> \<le> 2 powi 22"
    using f32_abs[OF a3] by simp_all
  have a4: "\<bar>h + r32 (r32 (r32 (0 + w1) + w2) + w3)\<bar> \<le> 2 powi 23"
    using s3(2) assms(4) p(3) by linarith
  have s4: "f32 (h + r32 (r32 (r32 (0 + w1) + w2) + w3))
              = Fin (r32 (h + r32 (r32 (r32 (0 + w1) + w2) + w3)))"
    using f32_abs(1)[OF a4] by simp
  show ?thesis
    by (simp only: tsum_def foldl.simps fadd.simps s1(1) s2(1) s3(1) s4)
qed

lemma example_posteriors:
  fixes a b :: real
  defines "a \<equiv> 13421773 / 67108864" and "b \<equiv> 13421773 / 33554432"
  defines "m \<equiv> \<lparr>class_priors = Some [(1, Fin (1 / 2)), (0, Fin (1 / 2))],
                 conditional_probabilities =
                   Some [(0, [Fin a, Fin b, Fin b]), (1, [Fin b, Fin b, Fin a])],
                 vocab_size = 3\<rparr>"
  shows "\<exists>u v. estimate_class_posteriors m [Fin 1, Fin 1, Fin 0] = Inr [Fin u, Fin v]
               \<and> v \<le> u"
    and "\<exists>u v. estimate_class_posteriors m [Fin 0, Fin 1, Fin 1] = Inr [Fin u, Fin v]
               \<and> u < v"
    and "\<exists>u v. estimate_class_posteriors m [Fin 1000, Fin 0, Fin 0] = Inr [Fin u, Fin v]
               \<and> - 1001 \<le> u \<and> u \<le> 0 \<and> - 2001 \<le> v \<and> v \<le> - 1250"
proof -
  note l = example_logarithms[folded a_def b_def]
  have bd: "\<bar>0 :: real\<bar> \<le> 2 powi 127" "\<bar>- 1 :: real\<bar> \<le> 2 powi 127"
    "\<bar>- 2 :: real\<bar> \<le> 2 powi 127" "\<bar>- (5 / 4) :: real\<bar> \<le> 2 powi 127"
    by simp_all
  define La Lb Lh where "La = r32 (ln a)" and "Lb = r32 (ln b)" and "Lh = r32 (ln (1 / 2))"
  have pos: "0 < a" "0 < b" by (simp_all add: a_def b_def)
  note ra = f32_between[OF l(1,2) representable(3,7) bd(3,4), folded La_def]
  note rb = f32_between[OF l(3,4) representable(2,1) bd(2,1), folded Lb_def]
  note rh = f32_between[OF l(5,6) representable(2,1) bd(2,1), folded Lh_def]
  have fa: "flog (Fin a) = Fin La" using pos ra(1) by simp
  have fb: "flog (Fin b) = Fin Lb" using pos rb(1) by simp
  have fh: "flog (Fin (1 / 2)) = Fin Lh" using rh(1) by simp
  note wa = weight_one[OF ra(2,3) representable(3,7) bd(3,4)]
  note wb = weight_one[OF rb(2,3) representable(2,1) bd(2,1)]
  have wa': "- 2 \<le> r32 La" "r32 La \<le> 0" using wa(2,3) by simp_all
  have wb': "- 2 \<le> r32 Lb" "r32 Lb \<le> 0" using wb(2,3) by simp_all
  have z: "\<bar>0 :: real\<bar> \<le> 2 powi 20" by simp
  have wa20: "\<bar>r32 La\<bar> \<le> 2 powi 20" using wa' by simp
  have wb20: "\<bar>r32 Lb\<bar> \<le> 2 powi 20" using wb' by simp
  have h20: "\<bar>Lh\<bar> \<le> 2 powi 20" using rh(2,3) by simp
  have ab: "r32 La \<le> r32 Lb" using wa(3) wb(2) by simp
  let ?P = "\<lambda>w1 w2 w3. r32 (Lh + r32 (r32 (r32 (0 + w1) + w2) + w3))"
  have e1: "estimate_class_posteriors m [Fin 1, Fin 1, Fin 0]
              = Inr [fadd (Fin Lh) (tsum [Fin (r32 Lb), Fin (r32 Lb), Fin 0]),
                     fadd (Fin Lh) (tsum [Fin (r32 La), Fin (r32 Lb), Fin 0])]"
    by (simp add: m_def estimate_class_posteriors_def zeros_def tmul_def numeral_2_eq_2
        fa fb fh wa(1) wb(1) weight_zero del: flog.simps fmul.simps fadd.simps)
  have e2: "estimate_class_posteriors m [Fin 0, Fin 1, Fin 1]
              = Inr [fadd (Fin Lh) (tsum [Fin 0, Fin (r32 Lb), Fin (r32 La)]),
                     fadd (Fin Lh) (tsum [Fin 0, Fin (r32 Lb), Fin (r32 Lb)])]"
    by (simp add: m_def estimate_class_posteriors_def zeros_def tmul_def numeral_2_eq_2
        fa fb fh wa(1) wb(1) weight_zero del: flog.simps fmul.simps fadd.simps)
  have "r32 (0 + r32 La) \<le> r32 (0 + r32 Lb)"
    using ab by (intro r32_mono) simp
  then have "r32 (r32 (0 + r32 La) + r32 Lb) \<le> r32 (r32 (0 + r32 Lb) + r32 Lb)"
    by (intro r32_mono) simp
  then have "r32 (r32 (r32 (0 + r32 La) + r32 Lb) + 0)
               \<le> r32 (r32 (r32 (0 + r32 Lb) + r32 Lb) + 0)"
    by (intro r32_mono) simp
  then have "?P (r32 La) (r32 Lb) 0 \<le> ?P (r32 Lb) (r32 Lb) 0"
    by (intro r32_mono) simp
  then show "\<exists>u v. estimate_class_posteriors m [Fin 1, Fin 1, Fin 0] = Inr [Fin u, Fin v]
               \<and> v \<le> u"
    unfolding e1 posterior_of_three[OF wb20 wb20 z h20]
      posterior_of_three[OF wa20 wb20 z h20]
    by blast
  define t where "t = r32 (r32 (0 + 0) + r32 Lb)"
  have "- 1 \<le> 0 + r32 Lb" "0 + r32 Lb \<le> 0" using wb(2,3) by simp_all
  from r32_ge[OF this(1) representable(2)] r32_le[OF this(2) representable(1)]
  have t: "- 1 \<le> t" "t \<le> 0" by (simp_all add: t_def r32_0)
  have x: "\<bar>t + r32 La\<bar> \<le> 4" "\<bar>t + r32 Lb\<bar> \<le> 4"
    using t wa(2,3) wb(2,3) by simp_all
  have small: "(2::real) powi (- 126) \<le> 4" "(2::real) powi (- 126) \<le> 8"
    using pow2_mono[of "- 126" 2] pow2_mono[of "- 126" 3] by simp_all
  note ea = r32_error[OF x(1) small(1)]
  note eb = r32_error[OF x(2) small(1)]
  have p24: "(2::real) powi (- 24) = 1 / 16777216" by simp
  have gap: "r32 (t + r32 La) + 1 / 8 \<le> r32 (t + r32 Lb)"
    using ea eb wa(3) wb(2) unfolding p24 by linarith
  have xa: "- 4 \<le> r32 (t + r32 La)" "r32 (t + r32 La) \<le> 0"
    using r32_ge[of "- 4" "t + r32 La"] r32_le[of "t + r32 La" 0] t wa(2,3)
      representable(1,4) by simp_all
  have xb: "- 4 \<le> r32 (t + r32 Lb)" "r32 (t + r32 Lb) \<le> 0"
    using r32_ge[of "- 4" "t + r32 Lb"] r32_le[of "t + r32 Lb" 0] t wb(2,3)
      representable(1,4) by simp_all
  have y: "\<bar>Lh + r32 (t + r32 La)\<bar> \<le> 8" "\<bar>Lh + r32 (t + r32 Lb)\<bar> \<le> 8"
    using rh(2,3) xa xb by simp_all
  note fa' = r32_error[OF y(1) small(2)]
  note fb' = r32_error[OF y(2) small(2)]
  have "r32 (Lh + r32 (t + r32 La)) < r32 (Lh + r32 (t + r32 Lb))"
    using fa' fb' gap unfolding p24 by linarith
  then have "?P 0 (r32 Lb) (r32 La) < ?P 0 (r32 Lb) (r32 Lb)"
    by (simp only: t_def)
  then show "\<exists>u v. estimate_class_posteriors m [Fin 0, Fin 1, Fin 1] = Inr [Fin u, Fin v]
               \<and> u < v"
    unfolding e2 posterior_of_three[OF z wb20 wa20 h20]
      posterior_of_three[OF z wb20 wb20 h20]
    by blast
  have rep: "r32 (- 1000) = - 1000" "r32 (- 1001) = - 1001" "r32 (- 1250) = - 1250"
    "r32 (- 2000) = - 2000" "r32 (- 2001) = - 2001"
    using r32_nat[of 1000] r32_nat[of 1001] r32_nat[of 1250] r32_nat[of 2000]
      r32_nat[of 2001] r32_neg[of 1000] r32_neg[of 1001] r32_neg[of 1250]
      r32_neg[of 2000] r32_neg[of 2001]
    by simp_all
  have big: "\<bar>- 1000 :: real\<bar> \<le> 2 powi 127" "\<bar>- 1250 :: real\<bar> \<le> 2 powi 127"
    "\<bar>- 2000 :: real\<bar> \<le> 2 powi 127"
    by simp_all
  have "- 2000 \<le> 1000 * La" "1000 * La \<le> - 1250" using ra(2,3) by simp_all
  note ka = f32_between[OF this rep(4,3) big(3,2)]
  have "- 1000 \<le> 1000 * Lb" "1000 * Lb \<le> 0" using rb(2,3) by simp_all
  note kb = f32_between[OF this rep(1) representable(1) big(1) bd(1)]
  have ma: "fmul (Fin 1000) (Fin La) = Fin (r32 (1000 * La))" using ka(1) by simp
  have mb: "fmul (Fin 1000) (Fin Lb) = Fin (r32 (1000 * Lb))" using kb(1) by simp
  have e3: "estimate_class_posteriors m [Fin 1000, Fin 0, Fin 0]
              = Inr [fadd (Fin Lh) (tsum [Fin (r32 (1000 * Lb)), Fin 0, Fin 0]),
                     fadd (Fin Lh) (tsum [Fin (r32 (1000 * La)), Fin 0, Fin 0])]"
    by (simp add: m_def estimate_class_posteriors_def zeros_def tmul_def numeral_2_eq_2
        fa fb fh ma mb weight_zero del: flog.simps fmul.simps fadd.simps)
  have ka20: "\<bar>r32 (1000 * La)\<bar> \<le> 2 powi 20" using ka(2,3) by simp
  have kb20: "\<bar>r32 (1000 * Lb)\<bar> \<le> 2 powi 20" using kb(2,3) by simp
  have through: "lo \<le> r32 (r32 (r32 (0 + w) + 0) + 0) \<and> r32 (r32 (r32 (0 + w) + 0) + 0) \<le> hi"
    if "lo \<le> w" "w \<le> hi" "r32 lo = lo" "r32 hi = hi" for lo hi w
  proof -
    have 1: "lo \<le> r32 (0 + w)" "r32 (0 + w) \<le> hi"
      using r32_ge[OF _ that(3), of "0 + w"] r32_le[OF _ that(4), of "0 + w"] that(1,2)
      by simp_all
    have 2: "lo \<le> r32 (r32 (0 + w) + 0)" "r32 (r32 (0 + w) + 0) \<le> hi"
      using r32_ge[OF _ that(3), of "r32 (0 + w) + 0"]
        r32_le[OF _ that(4), of "r32 (0 + w) + 0"] 1
      by simp_all
    show ?thesis
      using r32_ge[OF _ that(3), of "r32 (r32 (0 + w) + 0) + 0"]
        r32_le[OF _ that(4), of "r32 (r32 (0 + w) + 0) + 0"] 2
      by simp
  qed
  note tb = through[OF kb(2,3) rep(1) representable(1)]
  note ta = through[OF ka(2,3) rep(4,3)]
  have ub: "- 1001 \<le> ?P (r32 (1000 * Lb)) 0 0" "?P (r32 (1000 * Lb)) 0 0 \<le> 0"
    using r32_ge[OF _ rep(2), of "Lh + r32 (r32 (r32 (0 + r32 (1000 * Lb)) + 0) + 0)"]
      r32_le[OF _ representable(1), of "Lh + r32 (r32 (r32 (0 + r32 (1000 * Lb)) + 0) + 0)"]
      tb rh(2,3)
    by simp_all
  have va: "- 2001 \<le> ?P (r32 (1000 * La)) 0 0" "?P (r32 (1000 * La)) 0 0 \<le> - 1250"
    using r32_ge[OF _ rep(5), of "Lh + r32 (r32 (r32 (0 + r32 (1000 * La)) + 0) + 0)"]
      r32_le[OF _ rep(3), of "Lh + r32 (r32 (r32 (0 + r32 (1000 * La)) + 0) + 0)"]
      ta rh(2,3)
    by simp_all
  show "\<exists>u v. estimate_class_posteriors m [Fin 1000, Fin 0, Fin 0] = Inr [Fin u, Fin v]
               \<and> - 1001 \<le> u \<and> u \<le> 0 \<and> - 2001 \<le> v \<and> v \<le> - 1250"
    unfolding e3 posterior_of_three[OF kb20 z z h20] posterior_of_three[OF ka20 z z h20]
    using ub va by blast
qed

section \<open>The softmax of finite log posteriors\<close>

lemma foldl_fmax_Fin: "foldl fmax (Fin a) (map Fin ls) = Fin (fold max ls a)"
  by (induction ls arbitrary: a) (simp_all add: fmax_def max_def)

lemma tmax_Fin: "ls \<noteq> [] \<Longrightarrow> tmax (map Fin ls) = Fin (Max (set ls))"
proof -
  assume "ls \<noteq> []"
  then obtain l rest where ls: "ls = l # rest" by (cases ls) auto
  have "tmax (map Fin ls) = foldl fmax (Fin l) (map Fin rest)"
    by (simp add: tmax_def ls fmax_def)
  moreover have "Max (set ls) = fold max rest l"
    unfolding ls by (rule Max.set_eq_fold)
  ultimately show ?thesis by (simp add: foldl_fmax_Fin)
qed

lemma shifted_exp:
  assumes "\<bar>l\<bar> \<le> 2 powi 126" "\<bar>M\<bar> \<le> 2 powi 126" "l \<le> M"
  shows "fexp (fsub (Fin l) (Fin M)) = Fin (r32 (exp (r32 (l - M))))"
    and "0 \<le> r32 (exp (r32 (l - M)))" and "r32 (exp (r32 (l - M))) \<le> 1"
    and "l = M \<Longrightarrow> r32 (exp (r32 (l - M))) = 1"
proof -
  have "\<bar>l - M\<bar> \<le> 2 powi 126 + 2 powi 126" using assms(1,2) by linarith
  also have "\<dots> = (2::real) powi 127" using pow2_add[of 126 1] by simp
  finally have "f32 (l - M) = Fin (r32 (l - M))" by (rule f32_fin)
  then have sub: "fsub (Fin l) (Fin M) = Fin (r32 (l - M))" by (simp add: fsub_def)
  have x: "r32 (l - M) \<le> 0" using r32_le[of "l - M" 0] assms(3) by (simp add: r32_0)
  then have "0 \<le> exp (r32 (l - M))" "exp (r32 (l - M)) \<le> 1" by simp_all
  note u = unit_f32[OF this]
  show "fexp (fsub (Fin l) (Fin M)) = Fin (r32 (exp (r32 (l - M))))"
    unfolding sub using u(1) by simp
  show "0 \<le> r32 (exp (r32 (l - M)))" "r32 (exp (r32 (l - M))) \<le> 1" by (rule u(2), rule u(3))
  show "l = M \<Longrightarrow> r32 (exp (r32 (l - M))) = 1"
    using r32_nat[of 1] by (simp add: r32_0)
qed

lemma unit_sum:
  assumes "\<forall>e \<in> set es. 0 \<le> e \<and> e \<le> 1" "0 \<le> a" "a \<le> real j"
    and "j + length es \<le> 16777216"
  shows "\<exists>s. foldl fadd (Fin a) (map Fin es) = Fin s \<and> 0 \<le> s \<and> s \<le> real (j + length es)
           \<and> \<bar>s - (a + sum_list es)\<bar>
               \<le> real (length es) * real (j + length es) / 2 ^ 24
           \<and> (1 \<le> a \<or> (\<exists>e \<in> set es. e = 1) \<longrightarrow> 1 \<le> s)"
  using assms
proof (induction es arbitrary: a j)
  case Nil
  then show ?case by simp
next
  case (Cons e es)
  let ?n = "length (e # es)"
  have e: "0 \<le> e" "e \<le> 1" using Cons.prems(1) by simp_all
  have j1: "Suc j \<le> 2 ^ 24" using Cons.prems(4) by simp
  have sum: "0 \<le> a + e" "a + e \<le> real (Suc j)" using e Cons.prems(2,3) by simp_all
  have rep: "r32 (real (Suc j)) = real (Suc j)" by (rule r32_nat[OF j1])
  have up: "r32 (a + e) \<le> real (Suc j)" by (rule r32_le[OF sum(2) rep])
  have lo: "0 \<le> r32 (a + e)" using r32_ge[OF sum(1)] by (simp add: r32_0)
  have "real (Suc j) \<le> 2 ^ 24" using j1 by (metis of_nat_le_iff of_nat_numeral of_nat_power)
  then have "\<bar>a + e\<bar> \<le> 2 powi 24" using sum by simp
  from f32_abs(1)[OF this] have step: "fadd (Fin a) (Fin e) = Fin (r32 (a + e))" by simp
  have B: "\<bar>a + e\<bar> \<le> real (j + ?n)" using sum by simp
  have "(2::real) powi (- 126) \<le> 1" using pow2_mono[of "- 126" 0] by simp
  then have "2 powi (- 126) \<le> real (j + ?n)" by simp
  from r32_error[OF B this]
  have err: "\<bar>r32 (a + e) - (a + e)\<bar> \<le> real (j + ?n) / 2 ^ 24"
    by (simp add: power_int_minus_divide)
  have "\<forall>e \<in> set es. 0 \<le> e \<and> e \<le> 1" using Cons.prems(1) by simp
  moreover have "Suc j + length es \<le> 16777216" using Cons.prems(4) by simp
  ultimately obtain s where
    s: "foldl fadd (Fin (r32 (a + e))) (map Fin es) = Fin s" "0 \<le> s"
       "s \<le> real (Suc j + length es)"
       "\<bar>s - (r32 (a + e) + sum_list es)\<bar>
           \<le> real (length es) * real (Suc j + length es) / 2 ^ 24"
       "1 \<le> r32 (a + e) \<or> (\<exists>e \<in> set es. e = 1) \<longrightarrow> 1 \<le> s"
    using Cons.IH[OF _ lo up] by blast
  have one: "1 \<le> r32 (a + e)" if "1 \<le> a \<or> e = 1"
  proof -
    from that e Cons.prems(2) have "1 \<le> a + e" by auto
    from r32_ge[OF this] r32_nat[of 1] show ?thesis by simp
  qed
  have "\<bar>s - (a + sum_list (e # es))\<bar>
          \<le> \<bar>s - (r32 (a + e) + sum_list es)\<bar> + \<bar>r32 (a + e) - (a + e)\<bar>"
    by simp
  also have "\<dots> \<le> real (length es) * real (Suc j + length es) / 2 ^ 24
                   + real (j + ?n) / 2 ^ 24"
    using s(4) err by linarith
  also have "\<dots> = real ?n * real (j + ?n) / 2 ^ 24"
    by (simp add: field_simps)
  finally have tot: "\<bar>s - (a + sum_list (e # es))\<bar> \<le> real ?n * real (j + ?n) / 2 ^ 24" .
  show ?case
    using s(1,2,3,5) tot one step by (intro exI[of _ s]) auto
qed

lemma unit_quotient:
  assumes "0 \<le> e" "e \<le> 1" "1 \<le> s" "s \<le> 16777216"
  shows "fdiv (Fin e) (Fin s) = Fin (r32 (e / s))"
    and "0 \<le> r32 (e / s)" and "r32 (e / s) \<le> 1"
    and "\<bar>r32 (e / s) - e / s\<bar> \<le> 1 / 2 ^ 24"
    and "e = 1 \<Longrightarrow> 1 / 2 ^ 24 \<le> r32 (e / s)"
proof -
  have q: "0 \<le> e / s" "e / s \<le> 1" using assms by simp_all
  note u = unit_f32[OF q]
  show "fdiv (Fin e) (Fin s) = Fin (r32 (e / s))" using u(1) assms(3) by simp
  show "0 \<le> r32 (e / s)" "r32 (e / s) \<le> 1" "\<bar>r32 (e / s) - e / s\<bar> \<le> 1 / 2 ^ 24"
    by (rule u(2), rule u(3), rule u(4))
  show "1 / 2 ^ 24 \<le> r32 (e / s)" if "e = 1"
  proof -
    have "1 / 2 ^ 24 \<le> 1 / s" using assms(3,4) by (intro divide_left_mono) simp_all
    then have "2 powi (- 24) \<le> e / s" using that by (simp add: power_int_minus_divide)
    moreover have "e / s \<le> 2 powi 0" using q by simp
    ultimately have "2 powi (- 24) \<le> r32 (e / s)" by (intro f32_range(2)[of _ _ 0]) simp_all
    then show ?thesis by (simp add: power_int_minus_divide)
  qed
qed

lemma sum_list_quotients: "(\<Sum>e \<leftarrow> es. e / s) = sum_list es / (s::real)"
  by (induction es) (simp_all add: add_divide_distrib)

lemma softmax_finite:
  assumes "ls \<noteq> []" "length ls \<le> 16777216" "\<forall>l \<in> set ls. \<bar>l\<bar> \<le> 2 powi 126"
  shows "\<exists>q. softmax (map Fin ls) = map Fin q \<and> length q = length ls
           \<and> (\<forall>i < length ls. 0 \<le> q ! i \<and> q ! i \<le> 1
                  \<and> (ls ! i = Max (set ls) \<longrightarrow> 1 / 2 ^ 24 \<le> q ! i))
           \<and> \<bar>sum_list q - 1\<bar>
               \<le> (real (length ls) + real (length ls) * real (length ls)) / 2 ^ 24"
proof -
  define M where "M = Max (set ls)"
  define k where "k = length ls"
  have Min: "M \<in> set ls" unfolding M_def using assms(1) by (intro Max_in) simp_all
  have Mb: "\<bar>M\<bar> \<le> 2 powi 126" using assms(3) Min by blast
  have le: "l \<le> M" if "l \<in> set ls" for l unfolding M_def using that by simp
  define ex where "ex l = r32 (exp (r32 (l - M)))" for l
  have ex: "fexp (fsub (Fin l) (Fin M)) = Fin (ex l)" "0 \<le> ex l" "ex l \<le> 1"
    if "l \<in> set ls" for l
    using shifted_exp(1,2,3)[OF _ Mb le[OF that]] assms(3) that by (simp_all add: ex_def)
  have exM: "ex M = 1" using shifted_exp(4)[OF Mb Mb] by (simp add: ex_def)
  define es where "es = map ex ls"
  have es: "map (\<lambda>x. fexp (fsub x (Fin M))) (map Fin ls) = map Fin es"
    using ex(1) by (simp add: es_def)
  have unit: "\<forall>e \<in> set es. 0 \<le> e \<and> e \<le> 1" using ex(2,3) by (auto simp: es_def)
  have l_es: "length es = k" by (simp add: es_def k_def)
  have "\<exists>e \<in> set es. e = 1" using Min exM by (auto simp: es_def)
  with unit_sum[OF unit, of 0 0] assms(2) obtain s where
    s: "tsum (map Fin es) = Fin s" "0 \<le> s" "s \<le> real k"
       "\<bar>s - sum_list es\<bar> \<le> real k * real k / 2 ^ 24" "1 \<le> s"
    by (auto simp: tsum_def l_es k_def)
  have "real k \<le> 16777216" using assms(2) by (simp add: k_def)
  with s(3) have s24: "s \<le> 16777216" by linarith
  define q where "q = map (\<lambda>e. r32 (e / s)) es"
  have qv: "fdiv (Fin e) (Fin s) = Fin (r32 (e / s))" "0 \<le> r32 (e / s)" "r32 (e / s) \<le> 1"
    "\<bar>r32 (e / s) - e / s\<bar> \<le> 1 / 2 ^ 24"
    if "e \<in> set es" for e
    using unit_quotient(1,2,3,4)[OF _ _ s(5) s24, of e] unit that by simp_all
  have "softmax (map Fin ls) = map (\<lambda>e. fdiv e (tsum (map Fin es))) (map Fin es)"
    by (simp only: softmax_def Let_def tmax_Fin[OF assms(1)] M_def[symmetric] es)
  also have "\<dots> = map (\<lambda>e. fdiv e (Fin s)) (map Fin es)" by (simp only: s(1))
  also have "\<dots> = map Fin q" unfolding q_def using qv(1) by (simp del: fdiv.simps)
  finally have soft: "softmax (map Fin ls) = map Fin q" .
  have lq: "length q = length ls" by (simp add: q_def es_def)
  have entry: "0 \<le> q ! i \<and> q ! i \<le> 1 \<and> (ls ! i = Max (set ls) \<longrightarrow> 1 / 2 ^ 24 \<le> q ! i)"
    if i: "i < length ls" for i
  proof -
    have qi: "q ! i = r32 (ex (ls ! i) / s)" using i by (simp add: q_def es_def)
    have "ex (ls ! i) \<in> set es" using i by (simp add: es_def)
    from qv(2,3)[OF this] have "0 \<le> q ! i" "q ! i \<le> 1" by (simp_all add: qi)
    moreover have "1 / 2 ^ 24 \<le> q ! i" if "ls ! i = Max (set ls)"
      using unit_quotient(5)[OF _ _ s(5) s24, of 1] that exM by (simp add: qi M_def)
    ultimately show ?thesis by simp
  qed
  have "\<bar>sum_list q - (\<Sum>e \<leftarrow> es. e / s)\<bar> \<le> real (length es) * (1 / 2 ^ 24)"
    unfolding q_def by (rule sum_list_error) (use qv(4) in blast)
  then have a: "\<bar>sum_list q - sum_list es / s\<bar> \<le> real k / 2 ^ 24"
    by (simp add: sum_list_quotients l_es)
  have "\<bar>sum_list es / s - 1\<bar> = \<bar>sum_list es - s\<bar> / s"
    using s(5) by (simp add: field_simps abs_divide)
  also have "\<dots> \<le> \<bar>sum_list es - s\<bar>" using s(5) by (simp add: field_simps mult_le_cancel_left1)
    (metis abs_ge_zero mult_left_mono mult.commute mult.right_neutral)
  also have "\<dots> \<le> real k * real k / 2 ^ 24" using s(4) by (simp add: abs_minus_commute)
  finally have b: "\<bar>sum_list es / s - 1\<bar> \<le> real k * real k / 2 ^ 24" .
  have "\<bar>sum_list q - 1\<bar> \<le> real k / 2 ^ 24 + real k * real k / 2 ^ 24"
    using a b by linarith
  then have "\<bar>sum_list q - 1\<bar> \<le> (real k + real k * real k) / 2 ^ 24"
    by (simp add: add_divide_distrib)
  with soft lq entry show ?thesis unfolding k_def by blast
qed

section \<open>Finite log posteriors\<close>

lemma exp_nat_lower: "2 ^ n \<le> exp (real n)"
proof -
  have "(2::real) \<le> exp 1" using exp_ge_add_one_self[of "1::real"] by simp
  then have "(2::real) ^ n \<le> exp 1 ^ n" by (intro power_mono) simp_all
  also have "\<dots> = exp (real n)" using exp_of_nat_mult[of n "1::real"] by simp
  finally show ?thesis .
qed

lemma flog_bound:
  assumes "2 powi (- int a) \<le> q" "q \<le> 2 powi (int b)"
    and "real a \<le> 2 powi c" "real b \<le> 2 powi c" "- 149 \<le> c" "c \<le> 127"
  shows "flog (Fin q) = Fin (r32 (ln q))" and "\<bar>r32 (ln q)\<bar> \<le> 2 powi c"
proof -
  have "(0::real) < 2 powi (- int a)" by simp
  with assms(1) have pos: "0 < q" by linarith
  have "q \<le> 2 ^ b" using assms(2) by simp
  also have "\<dots> \<le> exp (real b)" by (rule exp_nat_lower)
  finally have up: "ln q \<le> real b" by (rule ln_upper[OF pos])
  have "exp (- real a) = 1 / exp (real a)" by (simp add: exp_minus inverse_eq_divide)
  also have "\<dots> \<le> 1 / 2 ^ a" using exp_nat_lower[of a] by (intro divide_left_mono) simp_all
  also have "\<dots> = 2 powi (- int a)" by (simp add: power_int_minus_divide)
  finally have "exp (- real a) \<le> q" using assms(1) by linarith
  from ln_lower[OF pos this] have lo: "- real a \<le> ln q" .
  have "\<bar>ln q\<bar> \<le> 2 powi c" using up lo assms(3,4) by linarith
  from f32_abs[OF this assms(5,6)] pos
  show "flog (Fin q) = Fin (r32 (ln q))" and "\<bar>r32 (ln q)\<bar> \<le> 2 powi c" by simp_all
qed

lemma weighted_bound:
  assumes "\<bar>f\<bar> \<le> 2 powi 24" "\<bar>l\<bar> \<le> 2 powi 7"
  shows "fmul (Fin f) (Fin l) = Fin (r32 (f * l))" and "\<bar>r32 (f * l)\<bar> \<le> 2 powi 31"
proof -
  have "\<bar>f * l\<bar> \<le> 2 powi 24 * 2 powi 7"
    unfolding abs_mult using assms by (intro mult_mono) simp_all
  also have "\<dots> = (2::real) powi 31" using pow2_add[of 24 7] by simp
  finally have "\<bar>f * l\<bar> \<le> 2 powi 31" .
  from f32_abs[OF this]
  show "fmul (Fin f) (Fin l) = Fin (r32 (f * l))" and "\<bar>r32 (f * l)\<bar> \<le> 2 powi 31"
    by simp_all
qed

lemma bounded_foldl:
  assumes "\<forall>x \<in> set xs. is_fin x \<and> \<bar>val x\<bar> \<le> 2 powi 31"
    and "\<bar>a\<bar> \<le> real j * 2 powi 31" "j + length xs \<le> 16777216"
  shows "\<exists>s. foldl fadd (Fin a) xs = Fin s \<and> \<bar>s\<bar> \<le> real (j + length xs) * 2 powi 31"
  using assms
proof (induction xs arbitrary: a j)
  case Nil
  then show ?case by simp
next
  case (Cons x xs)
  from Cons.prems(1) obtain w where x: "x = Fin w" and w: "\<bar>w\<bar> \<le> 2 powi 31"
    by (cases x) auto
  have j1: "Suc j \<le> 2 ^ 24" using Cons.prems(3) by simp
  have rep: "r32 (real (Suc j) * 2 powi 31) = real (Suc j) * 2 powi 31"
    by (rule r32_exact[OF j1]) simp
  have sum: "\<bar>a + w\<bar> \<le> real (Suc j) * 2 powi 31"
    using Cons.prems(2) w by (simp add: algebra_simps)
  have "real (Suc j) \<le> 2 ^ 24" using j1 by (metis of_nat_le_iff of_nat_numeral of_nat_power)
  then have "real (Suc j) * 2 powi 31 \<le> 2 powi 24 * 2 powi 31"
    by (intro mult_right_mono) simp_all
  also have "\<dots> = (2::real) powi 55" using pow2_add[of 24 31] by simp
  finally have "\<bar>a + w\<bar> \<le> 2 powi 55" using sum by linarith
  from f32_abs(1)[OF this] have step: "fadd (Fin a) x = Fin (r32 (a + w))" by (simp add: x)
  have "r32 (a + w) \<le> real (Suc j) * 2 powi 31"
    using r32_le[OF _ rep, of "a + w"] sum by linarith
  moreover have "- (real (Suc j) * 2 powi 31) \<le> r32 (a + w)"
  proof (rule r32_ge)
    show "- (real (Suc j) * 2 powi 31) \<le> a + w" using sum by linarith
    show "r32 (- (real (Suc j) * 2 powi 31)) = - (real (Suc j) * 2 powi 31)"
      by (simp only: r32_neg rep)
  qed
  ultimately have b: "\<bar>r32 (a + w)\<bar> \<le> real (Suc j) * 2 powi 31" by linarith
  have "\<forall>x \<in> set xs. is_fin x \<and> \<bar>val x\<bar> \<le> 2 powi 31" using Cons.prems(1) by simp
  moreover have "Suc j + length xs \<le> 16777216" using Cons.prems(3) by simp
  ultimately obtain s where
    "foldl fadd (Fin (r32 (a + w))) xs = Fin s" "\<bar>s\<bar> \<le> real (Suc j + length xs) * 2 powi 31"
    using Cons.IH[OF _ b] by blast
  then show ?case using step by (intro exI[of _ s]) simp
qed

lemma bounded_tsum:
  assumes "\<forall>x \<in> set xs. is_fin x \<and> \<bar>val x\<bar> \<le> 2 powi 31" "length xs \<le> 16777216"
  shows "\<exists>s. tsum xs = Fin s \<and> \<bar>s\<bar> \<le> 2 powi 55"
proof -
  from bounded_foldl[OF assms(1), of 0 0] assms(2) obtain s where
    s: "tsum xs = Fin s" "\<bar>s\<bar> \<le> real (length xs) * 2 powi 31"
    by (auto simp: tsum_def)
  have "real (length xs) \<le> 2 powi 24" using assms(2) by simp
  then have "real (length xs) * 2 powi 31 \<le> 2 powi 24 * 2 powi 31"
    by (intro mult_right_mono) simp_all
  also have "\<dots> = (2::real) powi 55" using pow2_add[of 24 31] by simp
  finally show ?thesis using s by (intro exI[of _ s]) simp
qed

lemma prior_range:
  assumes "c \<in> set labels" "length labels \<le> 16777216"
  shows "2 powi (- 24) \<le> r32 (r64 (real (count_list labels c) / real (length labels)))"
    and "r32 (r64 (real (count_list labels c) / real (length labels))) \<le> 2 powi 0"
proof -
  let ?n = "count_list labels c" and ?N = "length labels"
  have n: "1 \<le> ?n" using assms(1) count_list_0_iff[of labels c] by (cases "?n") auto
  have nN: "?n \<le> ?N" by (rule count_le_length)
  have N: "0 < real ?N" using n nN by (cases labels) simp_all
  have "1 / 2 ^ 24 \<le> 1 / real ?N" using assms(2) N by (intro divide_left_mono) simp_all
  also have "\<dots> \<le> real ?n / real ?N" using n N by (intro divide_right_mono) simp_all
  finally have lo: "2 powi (- 24) \<le> real ?n / real ?N" by (simp add: power_int_minus_divide)
  have hi: "real ?n / real ?N \<le> 2 powi 0" using nN N by simp
  note d = f64_range(2,3)[OF lo hi]
  have a: "2 powi (- 24) \<le> r64 (real ?n / real ?N)" by (rule d(1)) simp_all
  have b: "r64 (real ?n / real ?N) \<le> 2 powi 0" by (rule d(2)) simp_all
  show "2 powi (- 24) \<le> r32 (r64 (real ?n / real ?N))"
    by (rule f32_range(2)[OF a b]) simp_all
  show "r32 (r64 (real ?n / real ?N)) \<le> 2 powi 0"
    by (rule f32_range(3)[OF a b]) simp_all
qed

lemma priors_length: "length (estimate_class_priors labels) \<le> length labels"
proof -
  have "length (estimate_class_priors labels) = length (map fst (Counter labels))"
    by (simp add: priors_keys[symmetric])
  also have "\<dots> = card (set (map fst (Counter labels)))"
    by (rule distinct_card[symmetric]) (rule Counter_props(1))
  also have "\<dots> = card (set labels)" by (simp only: Counter_props(2))
  also have "\<dots> \<le> length labels" by (rule card_length)
  finally show ?thesis .
qed

lemma trained_log_posterior_fin:
  assumes cm: "count_matrix F" and len: "length labels = length (rows F)"
    and tot: "\<forall>c \<in> set labels. spec_total_words F labels c \<le> 16777216"
    and n: "ncols F \<le> 16777216" and N: "length labels \<le> 16777216"
    and d: "2 powi (- 40) \<le> d" "d \<le> 2 powi 40"
    and fl: "length feature = ncols F"
    and fb: "\<forall>x \<in> set feature. is_fin x \<and> \<bar>val x\<bar> \<le> 16777216"
    and e: "e \<in> set (estimate_class_priors labels)"
  shows "\<exists>l. trained_log_posterior F labels (Fin d) feature e = Fin l \<and> \<bar>l\<bar> \<le> 2 powi 56"
proof -
  obtain c prior where ec: "e = (c, prior)" by (cases e)
  let ?p = "r32 (r64 (real (count_list labels c) / real (length labels)))"
  from priors_entry[OF e[unfolded ec]] have c: "c \<in> set labels" and p: "prior = Fin ?p"
    by simp_all
  note pr = prior_range[OF c N]
  have lp: "flog prior = Fin (r32 (ln ?p))" "\<bar>r32 (ln ?p)\<bar> \<le> 2 powi 5"
    unfolding p using flog_bound[of 24 ?p 0 5] pr by simp_all
  let ?probs = "class_probs F labels (Fin d) c"
  have tc: "spec_total_words F labels c \<le> 16777216" using tot c by simp
  note cp = class_probs_entries[OF cm len tc, where delta = "Fin d"]
  let ?w = "map2 fmul feature (map flog ?probs)"
  have lw: "length ?w = ncols F" by (simp add: fl cp(1))
  have wi: "is_fin (?w ! i) \<and> \<bar>val (?w ! i)\<bar> \<le> 2 powi 31" if i: "i < ncols F" for i
  proof -
    have n0: "0 < ncols F" using i by simp
    from smoothed_range[OF spec_word_count_nonneg[OF cm i, of labels c]
        spec_word_count_le_total[OF cm i, of labels c] tc d n0 n]
    obtain q where q: "?probs ! i = Fin q" "2 powi (- 105) \<le> q" "q \<le> 2 powi 81"
      using cp(2)[OF i] by auto
    have lq: "flog (?probs ! i) = Fin (r32 (ln q))" "\<bar>r32 (ln q)\<bar> \<le> 2 powi 7"
      unfolding q(1) using flog_bound[of 105 q 81 7] q(2,3) by simp_all
    have "feature ! i \<in> set feature" using i fl by simp
    with fb obtain f where f: "feature ! i = Fin f" "\<bar>f\<bar> \<le> 2 powi 24"
      by (cases "feature ! i") auto
    have "?w ! i = fmul (feature ! i) (flog (?probs ! i))" using i fl cp(1) by simp
    with weighted_bound[OF f(2) lq(2)] show ?thesis by (simp add: f(1) lq(1))
  qed
  have "\<forall>x \<in> set ?w. is_fin x \<and> \<bar>val x\<bar> \<le> 2 powi 31"
    unfolding all_set_conv_all_nth lw using wi by blast
  from bounded_tsum[OF this] lw n obtain s where
    s: "tsum ?w = Fin s" "\<bar>s\<bar> \<le> 2 powi 55"
    by auto
  have "(2::real) powi 5 \<le> 2 powi 55" by (rule pow2_mono) simp
  then have "\<bar>r32 (ln ?p) + s\<bar> \<le> 2 powi 55 + 2 powi 55" using lp(2) s(2) by linarith
  also have "\<dots> = (2::real) powi 56" using pow2_add[of 55 1] by simp
  finally have "\<bar>r32 (ln ?p) + s\<bar> \<le> 2 powi 56" .
  from f32_abs[OF this]
  have "fadd (flog prior) (tsum ?w) = Fin (r32 (r32 (ln ?p) + s))"
    and "\<bar>r32 (r32 (ln ?p) + s)\<bar> \<le> 2 powi 56"
    by (simp_all add: lp(1) s(1))
  then show ?thesis by (simp add: trained_log_posterior_def ec)
qed

section \<open>The probabilities of the classes\<close>

text \<open>
  Claim C8, as amended. For every model that \<open>fit\<close> has trained with a delta between
  \<open>2^-40\<close> and \<open>2^40\<close> on a matrix of counts (a non-empty label sequence of at most
  \<open>2^24\<close> labels, at most \<open>2^24\<close> words in the vocabulary and in each class) and every
  feature vector as long as the vocabulary whose entries are finite and at most
  \<open>2^24\<close> in magnitude, the log posteriors are finite and \<open>predict_proba\<close> returns
  their softmax, in the ordering of the posteriors: finite numbers between 0 and 1,
  at least \<open>2^-24\<close> (so strictly positive) at every class whose log posterior is the
  greatest, whose sum is within \<open>(k + k^2) / 2^24\<close> of 1, where \<open>k\<close> is the number of
  classes. The other entries need not be positive: the exponential of a large negative
  number is 0 in single precision.
\<close>

theorem predict_proba_distribution:
  assumes "fit self F labels (Fin d) = (m, None)" "labels \<noteq> []" "length labels \<le> 16777216"
    and "count_matrix F" "ncols F \<le> 16777216"
    and "\<forall>c \<in> set labels. spec_total_words F labels c \<le> 16777216"
    and "2 powi (- 40) \<le> d" "d \<le> 2 powi 40"
    and "length feature = ncols F"
    and "\<forall>x \<in> set feature. is_fin x \<and> \<bar>val x\<bar> \<le> 16777216"
  shows "\<exists>priors lp q. class_priors m = Some priors
           \<and> estimate_class_posteriors m feature = Inr (map Fin lp)
           \<and> predict_proba m feature = Inr (map Fin q)
           \<and> map Fin q = softmax (map Fin lp)
           \<and> length lp = length priors \<and> length q = length priors
           \<and> (\<forall>i < length priors. 0 \<le> q ! i \<and> q ! i \<le> 1
                  \<and> (lp ! i = Max (set lp) \<longrightarrow> 1 / 2 ^ 24 \<le> q ! i))
           \<and> \<bar>sum_list q - 1\<bar>
               \<le> (real (length priors) + real (length priors) * real (length priors)) / 2 ^ 24"
proof -
  let ?priors = "estimate_class_priors labels"
  let ?t = "trained_log_posterior F labels (Fin d) feature"
  have len: "length labels = length (rows F)" by (rule fit_None_lengths[OF assms(1,2)])
  note tm = trained_model[OF assms(1,2) count_matrix_rectangular[OF assms(4)] assms(9)]
  have fin: "\<exists>l. ?t e = Fin l \<and> \<bar>l\<bar> \<le> 2 powi 56" if "e \<in> set ?priors" for e
    by (rule trained_log_posterior_fin[OF assms(4) len assms(6,5,3,7,8,9,10) that])
  define lp where "lp = map (\<lambda>e. val (?t e)) ?priors"
  have "Fin (val (?t e)) = ?t e" if "e \<in> set ?priors" for e
    using fin[OF that] by auto
  then have lpf: "map Fin lp = map ?t ?priors"
    unfolding lp_def by simp
  have ne: "lp \<noteq> []" using tm(2) by (simp add: lp_def)
  have lk: "length lp \<le> 16777216"
    using priors_length[of labels] assms(3) by (simp add: lp_def)
  have "(2::real) powi 56 \<le> 2 powi 126" by (rule pow2_mono) simp
  then have bd: "\<forall>l \<in> set lp. \<bar>l\<bar> \<le> 2 powi 126"
    using fin by (fastforce simp: lp_def)
  from softmax_finite[OF ne lk bd] obtain q where
    q: "softmax (map Fin lp) = map Fin q" "length q = length lp"
       "\<forall>i < length lp. 0 \<le> q ! i \<and> q ! i \<le> 1 \<and> (lp ! i = Max (set lp) \<longrightarrow> 1 / 2 ^ 24 \<le> q ! i)"
       "\<bar>sum_list q - 1\<bar> \<le> (real (length lp) + real (length lp) * real (length lp)) / 2 ^ 24"
    by blast
  have post: "estimate_class_posteriors m feature = Inr (map Fin lp)"
    by (simp only: tm(5) lpf)
  have "predict_proba m feature = Inr (map Fin q)"
    using tm(3,4) by (simp add: predict_proba_def post q(1))
  moreover have "length lp = length ?priors" by (simp add: lp_def)
  ultimately show ?thesis
    using tm(1) post q
    by (intro exI[of _ ?priors] exI[of _ lp] exI[of _ q]) simp
qed

theorem predict_proba_distribution_witness:
  "fit NaiveBayes_init
         \<lparr>ncols = 3, rows = [[Fin 1, Fin 1, Fin 0], [Fin 0, Fin 1, Fin 1]]\<rparr> [1, 0] (Fin 1)
       = (\<lparr>class_priors = Some [(1, Fin (1 / 2)), (0, Fin (1 / 2))],
           conditional_probabilities =
             Some [(0, [Fin (13421773 / 67108864), Fin (13421773 / 33554432),
                        Fin (13421773 / 33554432)]),
                   (1, [Fin (13421773 / 33554432), Fin (13421773 / 33554432),
                        Fin (13421773 / 67108864)])],
           vocab_size = 3\<rparr>, None)
   \<and> [1, 0 :: int] \<noteq> [] \<and> length [1, 0 :: int] \<le> 16777216
   \<and> count_matrix \<lparr>ncols = 3, rows = [[Fin 1, Fin 1, Fin 0], [Fin 0, Fin 1, Fin 1]]\<rparr>
   \<and> ncols \<lparr>ncols = 3, rows = [[Fin 1, Fin 1, Fin 0], [Fin 0, Fin 1, Fin 1]]\<rparr> \<le> 16777216
   \<and> spec_total_words
         \<lparr>ncols = 3, rows = [[Fin 1, Fin 1, Fin 0], [Fin 0, Fin 1, Fin 1]]\<rparr> [1, 0] 1 = 2
   \<and> spec_total_words
         \<lparr>ncols = 3, rows = [[Fin 1, Fin 1, Fin 0], [Fin 0, Fin 1, Fin 1]]\<rparr> [1, 0] 0 = 2
   \<and> 2 powi (- 40) \<le> (1 :: real) \<and> (1 :: real) \<le> 2 powi 40
   \<and> length [Fin 1, Fin 1, Fin 0]
       = ncols \<lparr>ncols = 3, rows = [[Fin 1, Fin 1, Fin 0], [Fin 0, Fin 1, Fin 1]]\<rparr>
   \<and> list_all (\<lambda>x. is_fin x \<and> \<bar>val x\<bar> \<le> 16777216) [Fin 1, Fin 1, Fin 0]
   \<and> (\<exists>q. predict_proba
              \<lparr>class_priors = Some [(1, Fin (1 / 2)), (0, Fin (1 / 2))],
                conditional_probabilities =
                  Some [(0, [Fin (13421773 / 67108864), Fin (13421773 / 33554432),
                             Fin (13421773 / 33554432)]),
                        (1, [Fin (13421773 / 33554432), Fin (13421773 / 33554432),
                             Fin (13421773 / 67108864)])],
                vocab_size = 3\<rparr>
              [Fin 1, Fin 1, Fin 0] = Inr (map Fin q)
          \<and> length q = 2 \<and> 1 / 2 ^ 24 \<le> q ! 0 \<and> q ! 0 \<le> 1 \<and> 0 \<le> q ! 1 \<and> q ! 1 \<le> 1
          \<and> \<bar>sum_list q - 1\<bar> \<le> 6 / 2 ^ 24)"
proof -
  let ?F = "\<lparr>ncols = 3, rows = [[Fin 1, Fin 1, Fin 0], [Fin 0, Fin 1, Fin 1]]\<rparr>"
  let ?m = "\<lparr>class_priors = Some [(1, Fin (1 / 2)), (0, Fin (1 / 2))],
           conditional_probabilities =
             Some [(0, [Fin (13421773 / 67108864), Fin (13421773 / 33554432),
                        Fin (13421773 / 33554432)]),
                   (1, [Fin (13421773 / 33554432), Fin (13421773 / 33554432),
                        Fin (13421773 / 67108864)])],
           vocab_size = 3\<rparr>"
  let ?x = "[Fin 1, Fin 1, Fin 0]"
  have f: "fit NaiveBayes_init ?F [1, 0] (Fin 1) = (?m, None)"
    by (rule example_fit)
  have ne: "[1, 0 :: int] \<noteq> []" and ll: "length [1, 0 :: int] \<le> 16777216" by simp_all
  have cm: "count_matrix ?F"
    by (simp add: count_matrix_def count_vector_def count_entry_def)
  have nc: "ncols ?F \<le> 16777216" by simp
  have t1: "spec_total_words ?F [1, 0] 1 = 2"
    by (simp add: spec_total_words_def spec_word_count_def upt_rec)
  have t0: "spec_total_words ?F [1, 0] 0 = 2"
    by (simp add: spec_total_words_def spec_word_count_def upt_rec)
  have tot: "\<forall>c \<in> set [1, 0]. spec_total_words ?F [1, 0] c \<le> 16777216"
    using t1 t0 by simp
  have d: "2 powi (- 40) \<le> (1 :: real)" "(1 :: real) \<le> 2 powi 40" by simp_all
  have l: "length ?x = ncols ?F" by simp
  have b: "\<forall>x \<in> set ?x. is_fin x \<and> \<bar>val x\<bar> \<le> 16777216" by simp
  have b': "list_all (\<lambda>x. is_fin x \<and> \<bar>val x\<bar> \<le> 16777216) ?x" by simp
  from predict_proba_distribution[OF f ne ll cm nc tot d l b] obtain priors lp q where
    pr: "class_priors ?m = Some priors"
    and post: "estimate_class_posteriors ?m ?x = Inr (map Fin lp)"
    and pp: "predict_proba ?m ?x = Inr (map Fin q)"
    and len: "length lp = length priors" "length q = length priors"
    and en: "\<forall>i < length priors. 0 \<le> q ! i \<and> q ! i \<le> 1
                  \<and> (lp ! i = Max (set lp) \<longrightarrow> 1 / 2 ^ 24 \<le> q ! i)"
    and sm: "\<bar>sum_list q - 1\<bar>
               \<le> (real (length priors) + real (length priors) * real (length priors)) / 2 ^ 24"
    by blast
  from pr have k: "length priors = 2" by auto
  from example_posteriors(1) post obtain u v where
    uv: "map Fin lp = [Fin u, Fin v]" and le: "v \<le> u"
    by auto
  then have lp: "lp = [u, v]" by (cases lp; cases "tl lp") auto
  have "lp ! 0 = Max (set lp)" using le by (simp add: lp max_def)
  with en k have "1 / 2 ^ 24 \<le> q ! 0" "q ! 0 \<le> 1" "0 \<le> q ! 1" "q ! 1 \<le> 1" by simp_all
  moreover have "\<bar>sum_list q - 1\<bar> \<le> 6 / 2 ^ 24" using sm by (simp add: k)
  ultimately have "\<exists>q. predict_proba ?m ?x = Inr (map Fin q)
          \<and> length q = 2 \<and> 1 / 2 ^ 24 \<le> q ! 0 \<and> q ! 0 \<le> 1 \<and> 0 \<le> q ! 1 \<and> q ! 1 \<le> 1
          \<and> \<bar>sum_list q - 1\<bar> \<le> 6 / 2 ^ 24"
    using pp len(2) k by (intro exI[of _ q]) simp
  with f ne ll cm nc t1 t0 d l b' show ?thesis by (intro conjI)
qed

text \<open>
  The claim C8 as stated (every trained model) fails: trained without smoothing on one
  example in which the second word does not occur, the model has a conditional
  probability 0, its logarithm is minus infinity, the product with the feature entry 0
  is NaN, and \<open>predict_proba\<close> returns NaN, not a positive number.
\<close>

theorem predict_proba_unsmoothed_nan:
  "count_matrix \<lparr>ncols = 2, rows = [[Fin 1, Fin 0]]\<rparr>
   \<and> fit NaiveBayes_init \<lparr>ncols = 2, rows = [[Fin 1, Fin 0]]\<rparr> [0] (Fin 0)
     = (\<lparr>class_priors = Some [(0, Fin 1)],
         conditional_probabilities = Some [(0, [Fin 1, Fin 0])],
         vocab_size = 2\<rparr>, None)
   \<and> estimate_class_posteriors
         \<lparr>class_priors = Some [(0, Fin 1)],
           conditional_probabilities = Some [(0, [Fin 1, Fin 0])],
           vocab_size = 2\<rparr> [Fin 1, Fin 0] = Inr [NaN]
   \<and> predict_proba
         \<lparr>class_priors = Some [(0, Fin 1)],
           conditional_probabilities = Some [(0, [Fin 1, Fin 0])],
           vocab_size = 2\<rparr> [Fin 1, Fin 0] = Inr [NaN]"
proof -
  have fm: "count_matrix \<lparr>ncols = 2, rows = [[Fin 1, Fin 0]]\<rparr>"
    by (simp add: count_matrix_def count_vector_def count_entry_def)
  have beta: "to_f32 (py_float_times_int (Fin 0) (Suc (Suc 0))) = Fin 0"
    using f64_nat[of 2] by (simp add: py_float_times_int_def small_floats)
  have cond: "estimate_conditional_probabilities \<lparr>ncols = 2, rows = [[Fin 1, Fin 0]]\<rparr> [0] (Fin 0)
                = Inr [(0, [Fin 1, Fin 0])]"
    by (simp add: estimate_conditional_probabilities_def unique_def mask_select_def
        sum_dim0_def zeros_def tadd_def smooth_def tsum_def Let_def numeral_2_eq_2
        beta small_floats)
  have f: "fit NaiveBayes_init \<lparr>ncols = 2, rows = [[Fin 1, Fin 0]]\<rparr> [0] (Fin 0)
     = (\<lparr>class_priors = Some [(0, Fin 1)],
         conditional_probabilities = Some [(0, [Fin 1, Fin 0])],
         vocab_size = 2\<rparr>, None)"
    by (simp only: fit_def cond)
      (simp add: NaiveBayes_init_def estimate_class_priors_def Counter_def counter_add_def
        py_int_div_def small_floats)
  have post: "estimate_class_posteriors
         \<lparr>class_priors = Some [(0, Fin 1)],
           conditional_probabilities = Some [(0, [Fin 1, Fin 0])],
           vocab_size = 2\<rparr> [Fin 1, Fin 0] = Inr [NaN]"
    by (simp add: estimate_class_posteriors_def zeros_def tmul_def tsum_def small_floats)
  have "predict_proba
         \<lparr>class_priors = Some [(0, Fin 1)],
           conditional_probabilities = Some [(0, [Fin 1, Fin 0])],
           vocab_size = 2\<rparr> [Fin 1, Fin 0] = Inr [NaN]"
    by (simp only: predict_proba_def post)
      (simp add: py_not_def softmax_def tmax_def fmax_def fsub_def tsum_def)
  with fm f post show ?thesis by (intro conjI)
qed

lemma underflow_to_zero:
  assumes "x \<le> - 150"
  shows "r32 (exp x) = 0"
proof -
  have "exp x \<le> exp (- real 150)" using assms by simp
  also have "\<dots> = 1 / exp (real 150)" by (simp add: exp_minus inverse_eq_divide)
  also have "\<dots> \<le> 1 / 2 ^ 150" using exp_nat_lower[of 150] by (intro divide_left_mono) simp_all
  also have "\<dots> = 2 powi (- 150)" by (simp add: power_int_minus_divide)
  finally have "r32 (exp x) \<le> r32 (2 powi (- 150))" by (rule r32_mono)
  moreover have "r32 (2 powi (- 150)) = 0"
    by (subst r32_at[of "- 150"]) (simp_all add: rne_def)
  moreover have "0 \<le> r32 (exp x)" using r32_ge[of 0 "exp x"] by (simp add: r32_0)
  ultimately show ?thesis by simp
qed

text \<open>
  The claim C8 also fails with smoothing, where it says that every value is strictly
  positive: in the model of the end-to-end example, on a vector with 1000 occurrences
  of the first word, the log posterior of class 0 lies more than 150 below that of
  class 1, the exponential of the difference is 0 in single precision, and
  \<open>predict_proba\<close> returns exactly 1 and 0.
\<close>

theorem predict_proba_underflow_zero:
  "predict_proba
     \<lparr>class_priors = Some [(1, Fin (1 / 2)), (0, Fin (1 / 2))],
       conditional_probabilities =
         Some [(0, [Fin (13421773 / 67108864), Fin (13421773 / 33554432),
                    Fin (13421773 / 33554432)]),
               (1, [Fin (13421773 / 33554432), Fin (13421773 / 33554432),
                    Fin (13421773 / 67108864)])],
       vocab_size = 3\<rparr>
     [Fin 1000, Fin 0, Fin 0]
   = Inr [Fin 1, Fin 0]"
proof -
  let ?m = "\<lparr>class_priors = Some [(1, Fin (1 / 2)), (0, Fin (1 / 2))],
       conditional_probabilities =
         Some [(0, [Fin (13421773 / 67108864), Fin (13421773 / 33554432),
                    Fin (13421773 / 33554432)]),
               (1, [Fin (13421773 / 33554432), Fin (13421773 / 33554432),
                    Fin (13421773 / 67108864)])],
       vocab_size = 3\<rparr>"
  from example_posteriors(3) obtain u v where
    post: "estimate_class_posteriors ?m [Fin 1000, Fin 0, Fin 0] = Inr [Fin u, Fin v]"
    and u: "- 1001 \<le> u" "u \<le> 0" and v: "- 2001 \<le> v" "v \<le> - 1250"
    by blast
  have ub: "\<bar>u\<bar> \<le> 2 powi 126" and vb: "\<bar>v\<bar> \<le> 2 powi 126" using u v by simp_all
  have vu: "v \<le> u" using u v by simp
  have m: "tmax [Fin u, Fin v] = Fin u"
    using tmax_Fin[of "[u, v]"] vu by (simp add: max_def)
  have eu: "fexp (fsub (Fin u) (Fin u)) = Fin 1"
    using shifted_exp(1,4)[OF ub ub] by simp
  have "r32 (- 249) = - 249" using r32_nat[of 249] r32_neg[of 249] by simp
  from r32_le[OF _ this, of "v - u"] have "r32 (v - u) \<le> - 150" using u v by simp
  from underflow_to_zero[OF this] have ev: "fexp (fsub (Fin v) (Fin u)) = Fin 0"
    using shifted_exp(1)[OF vb ub vu] by simp
  have s: "tsum [Fin 1, Fin 0] = Fin 1" by (simp add: tsum_def small_floats)
  have "softmax [Fin u, Fin v] = [Fin 1, Fin 0]"
    by (simp only: softmax_def Let_def m list.map eu ev s) (simp add: small_floats)
  then show ?thesis
    by (simp only: predict_proba_def post) (simp add: py_not_def)
qed

section \<open>What \<open>predict\<close> returns\<close>

text \<open>
  Claim C9. For every model that \<open>fit\<close> has trained on a non-empty label sequence
  (so that \<open>class_priors\<close> is not empty) and every feature vector as long as the
  vocabulary, \<open>estimate_class_posteriors\<close> returns one log posterior for each entry of
  \<open>class_priors\<close>, in the iteration order of \<open>class_priors\<close>: the one at position \<open>i\<close> is
  the logarithm of the \<open>i\<close>-th prior plus the sum of the products of the features with
  the logarithms of the conditional probabilities of the \<open>i\<close>-th class. \<open>predict\<close>
  returns, and what it returns is a position: a number below the number of entries of
  \<open>class_priors\<close>, namely the first position whose log posterior no other entry
  beats. The labels themselves play no part. Whatever the vector, a value that
  \<open>predict\<close> returns lies in that range.
\<close>

theorem predict_returns_position:
  assumes "fit self F labels delta = (m, None)" "labels \<noteq> []"
    and "rectangular F" "length feature = ncols F"
  shows "\<exists>priors lp p. class_priors m = Some priors \<and> priors \<noteq> []
           \<and> priors = estimate_class_priors labels
           \<and> estimate_class_posteriors m feature = Inr lp \<and> length lp = length priors
           \<and> lp = map (trained_log_posterior F labels delta feature) priors
           \<and> predict m feature = Inr (int p) \<and> p < length priors
           \<and> (\<forall>j < length lp. \<not> replaces (lp ! j) (lp ! p))
           \<and> (\<forall>j < p. replaces (lp ! p) (lp ! j))
           \<and> (\<forall>other r. predict m other = Inr r \<longrightarrow> 0 \<le> r \<and> r < int (length priors))"
proof -
  note tm = trained_model[OF assms]
  let ?priors = "estimate_class_priors labels"
  let ?lp = "map (trained_log_posterior F labels delta feature) ?priors"
  have "?lp \<noteq> []" using tm(2) by simp
  from argmax_spec[OF this] obtain p where
    p: "argmax ?lp = Inr p" "p < length ?lp"
       "\<forall>j < length ?lp. \<not> replaces (?lp ! j) (?lp ! p)"
       "\<forall>j < p. replaces (?lp ! p) (?lp ! j)"
    by blast
  have "predict m feature = Inr (int p)"
    using tm(3,4) by (simp add: predict_def tm(5) p(1))
  moreover have "\<forall>other r. predict m other = Inr r \<longrightarrow> 0 \<le> r \<and> r < int (length ?priors)"
    using predict_range[of m] tm(1) by fastforce
  ultimately show ?thesis
    using tm(1,2,5) p(2,3,4)
    by (intro exI[of _ ?priors] exI[of _ ?lp] exI[of _ p]) simp
qed

theorem predict_returns_position_witness:
  "fit NaiveBayes_init
         \<lparr>ncols = 3, rows = [[Fin 1, Fin 1, Fin 0], [Fin 0, Fin 1, Fin 1]]\<rparr> [1, 0] (Fin 1)
       = (\<lparr>class_priors = Some [(1, Fin (1 / 2)), (0, Fin (1 / 2))],
           conditional_probabilities =
             Some [(0, [Fin (13421773 / 67108864), Fin (13421773 / 33554432),
                        Fin (13421773 / 33554432)]),
                   (1, [Fin (13421773 / 33554432), Fin (13421773 / 33554432),
                        Fin (13421773 / 67108864)])],
           vocab_size = 3\<rparr>, None)
   \<and> [1, 0 :: int] \<noteq> []
   \<and> rectangular \<lparr>ncols = 3, rows = [[Fin 1, Fin 1, Fin 0], [Fin 0, Fin 1, Fin 1]]\<rparr>
   \<and> length [Fin 0, Fin 1, Fin 1]
       = ncols \<lparr>ncols = 3, rows = [[Fin 1, Fin 1, Fin 0], [Fin 0, Fin 1, Fin 1]]\<rparr>
   \<and> predict
         \<lparr>class_priors = Some [(1, Fin (1 / 2)), (0, Fin (1 / 2))],
           conditional_probabilities =
             Some [(0, [Fin (13421773 / 67108864), Fin (13421773 / 33554432),
                        Fin (13421773 / 33554432)]),
                   (1, [Fin (13421773 / 33554432), Fin (13421773 / 33554432),
                        Fin (13421773 / 67108864)])],
           vocab_size = 3\<rparr>
         [Fin 0, Fin 1, Fin 1]
       = Inr 1"
proof -
  let ?F = "\<lparr>ncols = 3, rows = [[Fin 1, Fin 1, Fin 0], [Fin 0, Fin 1, Fin 1]]\<rparr>"
  let ?m = "\<lparr>class_priors = Some [(1, Fin (1 / 2)), (0, Fin (1 / 2))],
           conditional_probabilities =
             Some [(0, [Fin (13421773 / 67108864), Fin (13421773 / 33554432),
                        Fin (13421773 / 33554432)]),
                   (1, [Fin (13421773 / 33554432), Fin (13421773 / 33554432),
                        Fin (13421773 / 67108864)])],
           vocab_size = 3\<rparr>"
  let ?x = "[Fin 0, Fin 1, Fin 1]"
  have f: "fit NaiveBayes_init ?F [1, 0] (Fin 1) = (?m, None)"
    by (rule example_fit)
  have ne: "[1, 0 :: int] \<noteq> []" by simp
  have r: "rectangular ?F" by (simp add: rectangular_def)
  have l: "length ?x = ncols ?F" by simp
  from predict_returns_position[OF f ne r l] obtain priors lp p where
    pr: "class_priors ?m = Some priors"
    and post: "estimate_class_posteriors ?m ?x = Inr lp"
    and p: "predict ?m ?x = Inr (int p)" and b: "p < length priors"
    and best: "\<forall>j < length lp. \<not> replaces (lp ! j) (lp ! p)"
    by blast
  from example_posteriors(2) post obtain u v where
    lp: "lp = [Fin u, Fin v]" and uv: "u < v"
    by auto
  from pr have "priors = [(1, Fin (1 / 2)), (0, Fin (1 / 2))]" by simp
  with b have "p = 0 \<or> p = 1" by auto
  moreover have "p \<noteq> 0"
  proof
    assume "p = 0"
    with best lp have "\<not> replaces (Fin v) (Fin u)" by auto
    with uv show False by (simp add: replaces_def)
  qed
  ultimately have "p = 1" by simp
  with p have "predict ?m ?x = Inr 1" by simp
  with f ne r l show ?thesis by (intro conjI)
qed

section \<open>The end-to-end example\<close>

text \<open>
  Claim C1. On the two examples of the specification, with the vocabulary that
  \<open>build_vocab\<close> gives and delta 1, \<open>fit\<close> stores the priors 1/2 for the classes 1 and
  0 (in this order: class 1 is seen first) and, for class 1, the conditional
  probabilities 2/5, 2/5 and 1/5 rounded to single precision. On the vector of
  "good movie", \<open>predict\<close> then returns 0, the position of class 1 among the priors,
  not the label 1.
\<close>

theorem end_to_end_example_predicts_position:
  "build_vocab [\<lparr>words = [''good'', ''movie''], label = 1\<rparr>,
                \<lparr>words = [''bad'', ''movie''], label = 0\<rparr>]
     = [(''good'', 0), (''movie'', 1), (''bad'', 2)]
   \<and> bag_of_words [''good'', ''movie''] [(''good'', 0), (''movie'', 1), (''bad'', 2)] False
       = Inr [Fin 1, Fin 1, Fin 0]
   \<and> bag_of_words [''bad'', ''movie''] [(''good'', 0), (''movie'', 1), (''bad'', 2)] False
       = Inr [Fin 0, Fin 1, Fin 1]
   \<and> fit NaiveBayes_init
         \<lparr>ncols = 3, rows = [[Fin 1, Fin 1, Fin 0], [Fin 0, Fin 1, Fin 1]]\<rparr> [1, 0] (Fin 1)
       = (\<lparr>class_priors = Some [(1, Fin (1 / 2)), (0, Fin (1 / 2))],
           conditional_probabilities =
             Some [(0, [Fin (13421773 / 67108864), Fin (13421773 / 33554432),
                        Fin (13421773 / 33554432)]),
                   (1, [Fin (13421773 / 33554432), Fin (13421773 / 33554432),
                        Fin (13421773 / 67108864)])],
           vocab_size = 3\<rparr>, None)
   \<and> \<bar>13421773 / 33554432 - 2 / 5 :: real\<bar> < 1 / 10 ^ 8
   \<and> \<bar>13421773 / 67108864 - 1 / 5 :: real\<bar> < 1 / 10 ^ 8
   \<and> predict
         \<lparr>class_priors = Some [(1, Fin (1 / 2)), (0, Fin (1 / 2))],
           conditional_probabilities =
             Some [(0, [Fin (13421773 / 67108864), Fin (13421773 / 33554432),
                        Fin (13421773 / 33554432)]),
                   (1, [Fin (13421773 / 33554432), Fin (13421773 / 33554432),
                        Fin (13421773 / 67108864)])],
           vocab_size = 3\<rparr>
         [Fin 1, Fin 1, Fin 0]
       = Inr 0"
proof -
  have v: "build_vocab [\<lparr>words = [''good'', ''movie''], label = 1\<rparr>,
                \<lparr>words = [''bad'', ''movie''], label = 0\<rparr>]
     = [(''good'', 0), (''movie'', 1), (''bad'', 2)]"
    by (simp add: build_vocab_def vocab_step_def)
  have b1: "bag_of_words [''good'', ''movie''] [(''good'', 0), (''movie'', 1), (''bad'', 2)] False
       = Inr [Fin 1, Fin 1, Fin 0]"
    by (simp add: bag_of_words_def zeros_def tensor_index_def numeral_3_eq_3 small_floats)
  have b2: "bag_of_words [''bad'', ''movie''] [(''good'', 0), (''movie'', 1), (''bad'', 2)] False
       = Inr [Fin 0, Fin 1, Fin 1]"
    by (simp add: bag_of_words_def zeros_def tensor_index_def numeral_3_eq_3 numeral_2_eq_2
        small_floats)
  have c: "\<bar>13421773 / 33554432 - 2 / 5 :: real\<bar> < 1 / 10 ^ 8"
    "\<bar>13421773 / 67108864 - 1 / 5 :: real\<bar> < 1 / 10 ^ 8"
    by simp_all
  from example_posteriors(1) obtain u w where
    post: "estimate_class_posteriors
         \<lparr>class_priors = Some [(1, Fin (1 / 2)), (0, Fin (1 / 2))],
           conditional_probabilities =
             Some [(0, [Fin (13421773 / 67108864), Fin (13421773 / 33554432),
                        Fin (13421773 / 33554432)]),
                   (1, [Fin (13421773 / 33554432), Fin (13421773 / 33554432),
                        Fin (13421773 / 67108864)])],
           vocab_size = 3\<rparr>
         [Fin 1, Fin 1, Fin 0] = Inr [Fin u, Fin w]"
    and le: "w \<le> u"
    by blast
  have p: "predict
         \<lparr>class_priors = Some [(1, Fin (1 / 2)), (0, Fin (1 / 2))],
           conditional_probabilities =
             Some [(0, [Fin (13421773 / 67108864), Fin (13421773 / 33554432),
                        Fin (13421773 / 33554432)]),
                   (1, [Fin (13421773 / 33554432), Fin (13421773 / 33554432),
                        Fin (13421773 / 67108864)])],
           vocab_size = 3\<rparr>
         [Fin 1, Fin 1, Fin 0]
       = Inr 0"
    using le by (simp only: predict_def post) (simp add: py_not_def argmax_def replaces_def)
  from v b1 b2 example_fit c p show ?thesis by (intro conjI)
qed

text \<open>
  Claim C2. \<open>predict\<close> does not return the class label: trained on a single example
  with label 1, the only key of \<open>class_priors\<close> is 1, the only log posterior is that
  of class 1, and \<open>predict\<close> returns 0.
\<close>

theorem predict_single_class_returns_zero:
  "fit NaiveBayes_init \<lparr>ncols = 1, rows = [[Fin 1]]\<rparr> [1] (Fin 1)
     = (\<lparr>class_priors = Some [(1, Fin 1)],
         conditional_probabilities = Some [(1, [Fin 1])],
         vocab_size = 1\<rparr>, None)
   \<and> estimate_class_posteriors
         \<lparr>class_priors = Some [(1, Fin 1)],
           conditional_probabilities = Some [(1, [Fin 1])],
           vocab_size = 1\<rparr> [Fin 1] = Inr [Fin 0]
   \<and> predict
         \<lparr>class_priors = Some [(1, Fin 1)],
           conditional_probabilities = Some [(1, [Fin 1])],
           vocab_size = 1\<rparr> [Fin 1] = Inr 0"
proof -
  have beta: "to_f32 (py_float_times_int (Fin 1) (Suc 0)) = Fin 1"
    using f64_nat[of 1] by (simp add: py_float_times_int_def small_floats)
  have cond: "estimate_conditional_probabilities \<lparr>ncols = 1, rows = [[Fin 1]]\<rparr> [1] (Fin 1)
                = Inr [(1, [Fin 1])]"
    by (simp add: estimate_conditional_probabilities_def unique_def mask_select_def
        sum_dim0_def zeros_def tadd_def smooth_def tsum_def Let_def beta small_floats)
  have f: "fit NaiveBayes_init \<lparr>ncols = 1, rows = [[Fin 1]]\<rparr> [1] (Fin 1)
     = (\<lparr>class_priors = Some [(1, Fin 1)],
         conditional_probabilities = Some [(1, [Fin 1])],
         vocab_size = 1\<rparr>, None)"
    by (simp only: fit_def cond)
      (simp add: NaiveBayes_init_def estimate_class_priors_def Counter_def counter_add_def
        py_int_div_def small_floats)
  have post: "estimate_class_posteriors
         \<lparr>class_priors = Some [(1, Fin 1)],
           conditional_probabilities = Some [(1, [Fin 1])],
           vocab_size = 1\<rparr> [Fin 1] = Inr [Fin 0]"
    by (simp add: estimate_class_posteriors_def zeros_def tmul_def tsum_def small_floats)
  have "predict
         \<lparr>class_priors = Some [(1, Fin 1)],
           conditional_probabilities = Some [(1, [Fin 1])],
           vocab_size = 1\<rparr> [Fin 1] = Inr 0"
    by (simp only: predict_def post) (simp add: py_not_def argmax_def)
  with f post show ?thesis by (intro conjI)
qed

end
